theory Spec2Isabelle
  imports Main "HOL-Library.Multiset" "HOL-Library.While_Combinator"
begin

section \<open>Data model\<close>

text \<open>
  A \<open>Person\<close> of the source carries an identifier, a name, an optional team reference and
  a dog preference. The source compares \<open>dogStatus\<close> only against the three literals
  \<open>'AVOID'\<close>, \<open>'LIKE'\<close> and \<open>'HAVE'\<close>, and every member with another value (or none) is
  removed from its team before any two statuses are compared with each other, so all
  other values are modelled by \<open>None\<close>.
\<close>

datatype DogStatus = AVOID | LIKE | HAVE

record teamRef =
  team_id :: string
  team_name :: string

record person =
  person_id :: string
  person_name :: string
  person_team :: "teamRef option"
  dogStatus :: "DogStatus option"

text \<open>Reading a property of \<open>undefined\<close> raises a \<open>TypeError\<close> in the source language.\<close>

datatype error = TypeError

type_synonym entry = "string \<times> person list"

definition bindE :: "error + 'a \<Rightarrow> ('a \<Rightarrow> error + 'b) \<Rightarrow> error + 'b" where
  "bindE m f = (case m of Inl e \<Rightarrow> Inl e | Inr x \<Rightarrow> f x)"

section \<open>Stage 1: grouping by team\<close>

text \<open>\<open>person.team?.id ?? 'none'\<close>\<close>

definition teamKey :: "person \<Rightarrow> string" where
  "teamKey p = (case person_team p of None \<Rightarrow> ''none'' | Some t \<Rightarrow> team_id t)"

text \<open>
  The \<open>Map\<close> of the source keeps its keys in insertion order; it is an association list
  here. \<open>pushToTeam\<close> is the body of the grouping loop: create the key's array at the end
  of the map when the key is new, then push the person onto the key's array.
\<close>

fun pushToTeam :: "string \<Rightarrow> person \<Rightarrow> entry list \<Rightarrow> entry list" where
  "pushToTeam k p [] = [(k, [p])]"
| "pushToTeam k p ((k', ps) # rest) =
     (if k' = k then (k', ps @ [p]) # rest else (k', ps) # pushToTeam k p rest)"

definition teamGroups :: "person list \<Rightarrow> entry list" where
  "teamGroups people = foldl (\<lambda>groups p. pushToTeam (teamKey p) p groups) [] people"

section \<open>Stage 2: ordering inside a team\<close>

text \<open>\<open>xs.slice(s, e)\<close> for indices that are not negative.\<close>

definition slice :: "'a list \<Rightarrow> nat \<Rightarrow> nat \<Rightarrow> 'a list" where
  "slice xs s e = take (e - s) (drop s xs)"

text \<open>
  The \<open>for\<close> loop that alternates HAVE members and LIKE buffers; its state is the array
  being rebuilt and \<open>likeIndex\<close>.
\<close>

function haveLoop ::
  "person list \<Rightarrow> person list \<Rightarrow> nat \<Rightarrow> nat \<Rightarrow> nat \<Rightarrow> person list \<times> nat \<Rightarrow> person list \<times> nat"
where
  "haveLoop have like likesPerGap extraLikes i (team, likeIndex) =
     (if i < length have then
        (if i < length have - 1 then
           haveLoop have like likesPerGap extraLikes (i + 1)
             ((team @ [have ! i]) @
                slice like likeIndex
                  (likeIndex + (likesPerGap + (if extraLikes > i + 1 then 1 else 0))),
              likeIndex + (likesPerGap + (if extraLikes > i + 1 then 1 else 0)))
         else haveLoop have like likesPerGap extraLikes (i + 1) (team @ [have ! i], likeIndex))
      else (team, likeIndex))"
  by pat_completeness auto
termination
  by (relation "measure (\<lambda>(have, like, likesPerGap, extraLikes, i, s). length have - i)") auto

declare haveLoop.simps [simp del]

definition orderTeam :: "person list \<Rightarrow> person list" where
  "orderTeam team =
     (let avoid = filter (\<lambda>p. dogStatus p = Some AVOID) team;
          have = filter (\<lambda>p. dogStatus p = Some HAVE) team;
          like = filter (\<lambda>p. dogStatus p = Some LIKE) team
      in if length have > 1 then
           (let likesPerGap = length like div (length have + 1);
                extraLikes = length like mod (length have + 1);
                initialLikes = likesPerGap + (if extraLikes > 0 then 1 else 0);
                (team2, likeIndex) =
                   haveLoop have like likesPerGap extraLikes 0
                     (avoid @ slice like 0 initialLikes, initialLikes)
            in if likeIndex < length like then team2 @ drop likeIndex like else team2)
         else avoid @ like @ have)"

section \<open>Stage 3: the eight categories\<close>

text \<open>\<open>team.some((p) => p.dogStatus === s)\<close>\<close>

definition someStatus :: "DogStatus \<Rightarrow> person list \<Rightarrow> bool" where
  "someStatus s team = list_ex (\<lambda>p. dogStatus p = Some s) team"

text \<open>
  \<open>team[0].dogStatus\<close> and \<open>team[team.length - 1].dogStatus\<close>: on an empty array the
  element is \<open>undefined\<close> and reading its property raises.
\<close>

definition firstStatus :: "person list \<Rightarrow> error + DogStatus option" where
  "firstStatus team = (if team = [] then Inl TypeError else Inr (dogStatus (hd team)))"

definition lastStatus :: "person list \<Rightarrow> error + DogStatus option" where
  "lastStatus team = (if team = [] then Inl TypeError else Inr (dogStatus (last team)))"

text \<open>\<open>filter\<close> with a callback that may raise: the first exception ends the filtering.\<close>

fun filterE :: "('a \<Rightarrow> error + bool) \<Rightarrow> 'a list \<Rightarrow> error + 'a list" where
  "filterE f [] = Inr []"
| "filterE f (x # xs) =
     (case f x of
        Inl e \<Rightarrow> Inl e
      | Inr b \<Rightarrow> (case filterE f xs of
                   Inl e \<Rightarrow> Inl e
                 | Inr ys \<Rightarrow> Inr (if b then x # ys else ys)))"

text \<open>The callbacks of the eleven filters, in the order of the source.\<close>

definition withAvoidAndHave :: "entry \<Rightarrow> bool" where
  "withAvoidAndHave e = (someStatus AVOID (snd e) \<and> someStatus HAVE (snd e))"

definition endsWith :: "DogStatus \<Rightarrow> entry \<Rightarrow> error + bool" where
  "endsWith s e = bindE (lastStatus (snd e)) (\<lambda>l. Inr (l = Some s))"

definition samePreferences :: "entry \<Rightarrow> error + bool" where
  "samePreferences e =
     bindE (firstStatus (snd e)) (\<lambda>f. Inr (list_all (\<lambda>p. dogStatus p = f) (snd e)))"

definition differentPreferences :: "entry \<Rightarrow> error + bool" where
  "differentPreferences e =
     bindE (firstStatus (snd e)) (\<lambda>f. Inr (\<not> list_all (\<lambda>p. dogStatus p = f) (snd e)))"

definition startsWith :: "DogStatus \<Rightarrow> entry \<Rightarrow> error + bool" where
  "startsWith s e = bindE (firstStatus (snd e)) (\<lambda>f. Inr (f = Some s))"

text \<open>\<open>some(a) && !some(b) && last === l\<close>, with the short circuit of \<open>&&\<close>.\<close>

definition mixedEnding :: "DogStatus \<Rightarrow> DogStatus \<Rightarrow> DogStatus \<Rightarrow> entry \<Rightarrow> error + bool" where
  "mixedEnding a b l e =
     (if someStatus a (snd e) \<and> \<not> someStatus b (snd e) then endsWith l e else Inr False)"

record buckets =
  teamsOnlyAvoid :: "entry list"
  teamsAvoidEndLike :: "entry list"
  teamsWithBothEndLike :: "entry list"
  teamsWithBothEndHave :: "entry list"
  teamsOnlyLike :: "entry list"
  teamsHaveEndLike :: "entry list"
  teamsHaveEndHave :: "entry list"
  teamsOnlyHave :: "entry list"

definition categorize :: "entry list \<Rightarrow> error + buckets" where
  "categorize teams =
     (let teamsWithAvoidAndHave = filter withAvoidAndHave teams;
          remainingTeams = filter (\<lambda>e. \<not> withAvoidAndHave e) teams
      in
      bindE (filterE (endsWith HAVE) teamsWithAvoidAndHave) (\<lambda>bothEndHave.
      bindE (filterE (endsWith LIKE) teamsWithAvoidAndHave) (\<lambda>bothEndLike.
      bindE (filterE samePreferences remainingTeams) (\<lambda>teamsSamePreferences.
      bindE (filterE differentPreferences remainingTeams) (\<lambda>teamsDifferentPreferences.
      bindE (filterE (startsWith AVOID) teamsSamePreferences) (\<lambda>onlyAvoid.
      bindE (filterE (startsWith LIKE) teamsSamePreferences) (\<lambda>onlyLike.
      bindE (filterE (startsWith HAVE) teamsSamePreferences) (\<lambda>onlyHave.
      bindE (filterE (mixedEnding AVOID HAVE LIKE) teamsDifferentPreferences) (\<lambda>avoidEndLike.
      bindE (filterE (mixedEnding HAVE AVOID LIKE) teamsDifferentPreferences) (\<lambda>haveEndLike.
      bindE (filterE (mixedEnding HAVE AVOID HAVE) teamsDifferentPreferences) (\<lambda>haveEndHave.
      Inr \<lparr> teamsOnlyAvoid = onlyAvoid,
            teamsAvoidEndLike = avoidEndLike,
            teamsWithBothEndLike = bothEndLike,
            teamsWithBothEndHave = bothEndHave,
            teamsOnlyLike = onlyLike,
            teamsHaveEndLike = haveEndLike,
            teamsHaveEndHave = haveEndHave,
            teamsOnlyHave = onlyHave \<rparr>)))))))))))"

section \<open>Stage 4: the middle block and the final sequence\<close>

record 'a middleState =
  bothEndHaveIndex :: nat
  onlyLikeIndex :: nat
  haveEndLikeIndex :: nat
  teamsInMiddle :: "'a list"

text \<open>The condition and the body of the interleaving \<open>while\<close> loop.\<close>

definition middleCond :: "'a list \<Rightarrow> 'a list \<Rightarrow> 'a list \<Rightarrow> 'a middleState \<Rightarrow> bool" where
  "middleCond bothEndHave onlyLike haveEndLike s =
     (bothEndHaveIndex s < length bothEndHave \<or>
      onlyLikeIndex s < length onlyLike \<or>
      haveEndLikeIndex s < length haveEndLike)"

definition pushBuffer :: "'a list \<Rightarrow> 'a list \<Rightarrow> 'a middleState \<Rightarrow> 'a middleState" where
  "pushBuffer onlyLike haveEndLike s =
     (if onlyLikeIndex s < length onlyLike then
        s\<lparr> teamsInMiddle := teamsInMiddle s @ [onlyLike ! onlyLikeIndex s],
           onlyLikeIndex := onlyLikeIndex s + 1 \<rparr>
      else if haveEndLikeIndex s < length haveEndLike then
        s\<lparr> teamsInMiddle := teamsInMiddle s @ [haveEndLike ! haveEndLikeIndex s],
           haveEndLikeIndex := haveEndLikeIndex s + 1 \<rparr>
      else s)"

definition pushBothEndHave :: "'a list \<Rightarrow> 'a middleState \<Rightarrow> 'a middleState" where
  "pushBothEndHave bothEndHave s =
     (if bothEndHaveIndex s < length bothEndHave then
        s\<lparr> teamsInMiddle := teamsInMiddle s @ [bothEndHave ! bothEndHaveIndex s],
           bothEndHaveIndex := bothEndHaveIndex s + 1 \<rparr>
      else s)"

definition middleStep :: "'a list \<Rightarrow> 'a list \<Rightarrow> 'a list \<Rightarrow> 'a middleState \<Rightarrow> 'a middleState" where
  "middleStep bothEndHave onlyLike haveEndLike s =
     pushBothEndHave bothEndHave (pushBuffer onlyLike haveEndLike s)"

definition remaining :: "'a list \<Rightarrow> 'a list \<Rightarrow> 'a list \<Rightarrow> 'a middleState \<Rightarrow> nat" where
  "remaining bothEndHave onlyLike haveEndLike s =
     (length bothEndHave - bothEndHaveIndex s) + (length onlyLike - onlyLikeIndex s) +
     (length haveEndLike - haveEndLikeIndex s)"

function middleLoop :: "'a list \<Rightarrow> 'a list \<Rightarrow> 'a list \<Rightarrow> 'a middleState \<Rightarrow> 'a middleState" where
  "middleLoop bothEndHave onlyLike haveEndLike s =
     (if middleCond bothEndHave onlyLike haveEndLike s
      then middleLoop bothEndHave onlyLike haveEndLike (middleStep bothEndHave onlyLike haveEndLike s)
      else s)"
  by pat_completeness auto
termination
  by (relation "measure (\<lambda>(b, l, h, s). remaining b l h s)") (auto simp: remaining_def middleCond_def middleStep_def pushBothEndHave_def pushBuffer_def)

declare middleLoop.simps [simp del]

definition middleBlock :: "'a list \<Rightarrow> 'a list \<Rightarrow> 'a list \<Rightarrow> 'a list" where
  "middleBlock bothEndHave onlyLike haveEndLike =
     (if length bothEndHave > 0 then
        teamsInMiddle
          (middleLoop bothEndHave onlyLike haveEndLike
             \<lparr> bothEndHaveIndex = 1, onlyLikeIndex = 0, haveEndLikeIndex = 0,
               teamsInMiddle = [bothEndHave ! 0] \<rparr>)
      else onlyLike @ haveEndLike)"

definition emitted :: "buckets \<Rightarrow> entry list" where
  "emitted b =
     teamsOnlyAvoid b @ teamsAvoidEndLike b @ teamsWithBothEndLike b @
     middleBlock (teamsWithBothEndHave b) (teamsOnlyLike b) (teamsHaveEndLike b) @
     teamsHaveEndHave b @ teamsOnlyHave b"

definition calculateDeskLayout :: "person list \<Rightarrow> error + person list" where
  "calculateDeskLayout people =
     (if length people = 0 then Inr []
      else bindE (categorize (map (\<lambda>(k, team). (k, orderTeam team)) (teamGroups people)))
             (\<lambda>b. Inr (concat (map snd (emitted b)))))"

section \<open>The middle block as the specification words it\<close>

text \<open>
  One round takes a buffer team (the next OnlyLike team if one is left, else the next
  HaveEndLike team if one is left) and then the next BothEndHave team if one is left;
  rounds go on while any of the three buckets has a team left. The buckets are consumed
  from the front.
\<close>

fun rounds :: "'a list \<Rightarrow> 'a list \<Rightarrow> 'a list \<Rightarrow> 'a list" where
  "rounds [] [] [] = []"
| "rounds [] (l # ls) hs = l # rounds [] ls hs"
| "rounds (b # bs) (l # ls) hs = l # b # rounds bs ls hs"
| "rounds [] [] (h # hs) = h # rounds [] [] hs"
| "rounds (b # bs) [] (h # hs) = h # b # rounds bs [] hs"
| "rounds (b # bs) [] [] = b # rounds bs [] []"

definition middleBlock_spec :: "'a list \<Rightarrow> 'a list \<Rightarrow> 'a list \<Rightarrow> 'a list" where
  "middleBlock_spec bothEndHave onlyLike haveEndLike =
     (case bothEndHave of
        [] \<Rightarrow> onlyLike @ haveEndLike
      | b # bs \<Rightarrow> b # rounds bs onlyLike haveEndLike)"

section \<open>The pipeline as the specification words it\<close>

text \<open>
  The grouper: one pair per team key, in the order in which the keys first appear in the
  input, each with the people of that key in input order.
\<close>

definition firstSeen :: "'a list \<Rightarrow> 'a list" where
  "firstSeen xs = rev (remdups (rev xs))"

definition teamGroups_spec :: "person list \<Rightarrow> entry list" where
  "teamGroups_spec people =
     map (\<lambda>k. (k, filter (\<lambda>p. teamKey p = k) people)) (firstSeen (map teamKey people))"

text \<open>
  The classifier, in the specification's order of evaluation: first the teams with both
  an AVOID and a HAVE member, split by the status of the last member; then, among the
  others, the teams whose members all have one status; then the mixed teams.
\<close>

datatype Category =
  OnlyAvoid | OnlyLike | OnlyHave | AvoidEndLike | HaveEndLike | HaveEndHave |
  BothEndHave | BothEndLike

definition category :: "person list \<Rightarrow> Category option" where
  "category team =
     (if team = [] then None
      else if someStatus AVOID team \<and> someStatus HAVE team then
        (if dogStatus (last team) = Some HAVE then Some BothEndHave
         else if dogStatus (last team) = Some LIKE then Some BothEndLike
         else None)
      else if list_all (\<lambda>p. dogStatus p = Some AVOID) team then Some OnlyAvoid
      else if list_all (\<lambda>p. dogStatus p = Some LIKE) team then Some OnlyLike
      else if list_all (\<lambda>p. dogStatus p = Some HAVE) team then Some OnlyHave
      else if list_all (\<lambda>p. dogStatus p = dogStatus (hd team)) team then None
      else if someStatus AVOID team \<and> \<not> someStatus HAVE team \<and> dogStatus (last team) = Some LIKE
        then Some AvoidEndLike
      else if someStatus HAVE team \<and> \<not> someStatus AVOID team \<and> dogStatus (last team) = Some LIKE
        then Some HaveEndLike
      else if someStatus HAVE team \<and> \<not> someStatus AVOID team \<and> dogStatus (last team) = Some HAVE
        then Some HaveEndHave
      else None)"

fun bucket :: "Category \<Rightarrow> buckets \<Rightarrow> entry list" where
  "bucket OnlyAvoid b = teamsOnlyAvoid b"
| "bucket OnlyLike b = teamsOnlyLike b"
| "bucket OnlyHave b = teamsOnlyHave b"
| "bucket AvoidEndLike b = teamsAvoidEndLike b"
| "bucket HaveEndLike b = teamsHaveEndLike b"
| "bucket HaveEndHave b = teamsHaveEndHave b"
| "bucket BothEndHave b = teamsWithBothEndHave b"
| "bucket BothEndLike b = teamsWithBothEndLike b"

text \<open>
  The teams after the intra-team ordering, in first-seen order; the teams of one category,
  still in that order; the sequence of teams the composer emits; and the final sequence.
\<close>

definition teams_spec :: "person list \<Rightarrow> entry list" where
  "teams_spec people =
     map (\<lambda>k. (k, orderTeam (filter (\<lambda>p. teamKey p = k) people)))
       (firstSeen (map teamKey people))"

definition teamsOf :: "Category \<Rightarrow> entry list \<Rightarrow> entry list" where
  "teamsOf c ts = filter (\<lambda>e. category (snd e) = Some c) ts"

definition emitted_spec :: "person list \<Rightarrow> entry list" where
  "emitted_spec people =
     (let ts = teams_spec people in
      teamsOf OnlyAvoid ts @ teamsOf AvoidEndLike ts @ teamsOf BothEndLike ts @
      middleBlock_spec (teamsOf BothEndHave ts) (teamsOf OnlyLike ts) (teamsOf HaveEndLike ts) @
      teamsOf HaveEndHave ts @ teamsOf OnlyHave ts)"

definition layout_spec :: "person list \<Rightarrow> person list" where
  "layout_spec people = concat (map snd (emitted_spec people))"

text \<open>The callbacks of the classification filters on a team that is not empty.\<close>

definition lastIs :: "DogStatus \<Rightarrow> entry \<Rightarrow> bool" where
  "lastIs s e = (dogStatus (last (snd e)) = Some s)"
definition firstIs :: "DogStatus \<Rightarrow> entry \<Rightarrow> bool" where
  "firstIs s e = (dogStatus (hd (snd e)) = Some s)"
definition allSame :: "entry \<Rightarrow> bool" where
  "allSame e = list_all (\<lambda>p. dogStatus p = dogStatus (hd (snd e))) (snd e)"
definition mixed :: "DogStatus \<Rightarrow> DogStatus \<Rightarrow> DogStatus \<Rightarrow> entry \<Rightarrow> bool" where
  "mixed a b l e = (someStatus a (snd e) \<and> \<not> someStatus b (snd e) \<and> lastIs l e)"

section \<open>Vocabulary of the properties\<close>

text \<open>The three lists a team is partitioned into, in the team's own order.\<close>

abbreviation avoidOf :: "person list \<Rightarrow> person list" where
  "avoidOf team \<equiv> filter (\<lambda>p. dogStatus p = Some AVOID) team"
abbreviation haveOf :: "person list \<Rightarrow> person list" where
  "haveOf team \<equiv> filter (\<lambda>p. dogStatus p = Some HAVE) team"
abbreviation likeOf :: "person list \<Rightarrow> person list" where
  "likeOf team \<equiv> filter (\<lambda>p. dogStatus p = Some LIKE) team"

text \<open>
  \<open>initialLikes\<close> of the source, and the state the alternating loop ends in when it is
  started as the source starts it.
\<close>

definition initialLikes :: "person list \<Rightarrow> nat" where
  "initialLikes team =
     length (likeOf team) div (length (haveOf team) + 1) +
     (if length (likeOf team) mod (length (haveOf team) + 1) > 0 then 1 else 0)"

definition alternated :: "person list \<Rightarrow> person list \<times> nat" where
  "alternated team =
     haveLoop (haveOf team) (likeOf team)
       (length (likeOf team) div (length (haveOf team) + 1))
       (length (likeOf team) mod (length (haveOf team) + 1)) 0
       (avoidOf team @ slice (likeOf team) 0 (initialLikes team), initialLikes team)"

text \<open>Every team group of the input has a member with a recognised status.\<close>

definition everyTeamClassified :: "person list \<Rightarrow> bool" where
  "everyTeamClassified people =
     list_all (\<lambda>q. list_ex (\<lambda>r. teamKey r = teamKey q \<and> dogStatus r \<noteq> None) people) people"

text \<open>The number of LIKE members of a block that come before its first HAVE member.\<close>

definition firstBuffer :: "person list \<Rightarrow> nat" where
  "firstBuffer block = length (likeOf (takeWhile (\<lambda>p. dogStatus p \<noteq> Some HAVE) block))"

text \<open>Some AVOID member and some HAVE member of the block sit at neighbouring desks.\<close>

fun avoidNextToHave :: "person list \<Rightarrow> bool" where
  "avoidNextToHave (p # q # rest) =
     ((dogStatus p = Some AVOID \<and> dogStatus q = Some HAVE) \<or>
      (dogStatus p = Some HAVE \<and> dogStatus q = Some AVOID) \<or>
      avoidNextToHave (q # rest))"
| "avoidNextToHave _ = False"

section \<open>Example inputs\<close>

definition teamMember :: "string \<Rightarrow> string \<Rightarrow> DogStatus option \<Rightarrow> person" where
  "teamMember k n d =
     \<lparr> person_id = n, person_name = n,
       person_team = Some \<lparr> team_id = k, team_name = k \<rparr>, dogStatus = d \<rparr>"

definition twoHaveFiveLike :: "person list" where
  "twoHaveFiveLike =
     [teamMember ''t'' ''h1'' (Some HAVE), teamMember ''t'' ''l1'' (Some LIKE),
      teamMember ''t'' ''l2'' (Some LIKE), teamMember ''t'' ''h2'' (Some HAVE),
      teamMember ''t'' ''l3'' (Some LIKE), teamMember ''t'' ''l4'' (Some LIKE),
      teamMember ''t'' ''l5'' (Some LIKE)]"

definition scenario1 :: "person list" where
  "scenario1 =
     [teamMember ''t'' ''Alice'' (Some LIKE), teamMember ''t'' ''Bob'' (Some LIKE),
      teamMember ''t'' ''Charlie'' (Some AVOID), teamMember ''t'' ''David'' (Some HAVE),
      teamMember ''t'' ''Eve'' (Some HAVE)]"

definition office :: "person list" where
  "office =
     [teamMember ''dev'' ''Alice'' (Some LIKE), teamMember ''ops'' ''Omar'' (Some HAVE),
      teamMember ''dev'' ''Bob'' (Some LIKE), teamMember ''dev'' ''Charlie'' (Some AVOID),
      teamMember ''hr'' ''Hana'' (Some AVOID), teamMember ''dev'' ''David'' (Some HAVE),
      teamMember ''ops'' ''Olga'' (Some LIKE), teamMember ''dev'' ''Eve'' (Some HAVE)]"

definition strayGroup :: "person list" where
  "strayGroup =
     [teamMember ''dev'' ''Ann'' None, teamMember ''dev'' ''Ben'' (Some AVOID),
      teamMember ''ops'' ''Cid'' None]"

definition twoTeams :: "person list" where
  "twoTeams =
     [teamMember ''pets'' ''Hugo'' (Some HAVE), teamMember ''quiet'' ''Ada'' (Some AVOID),
      teamMember ''pets'' ''Hedy'' (Some HAVE), teamMember ''quiet'' ''Avi'' (Some AVOID)]"

section \<open>The interleaving loop\<close>

lemma while_middleLoop:
  "while_option (middleCond b l h) (middleStep b l h) s = Some (middleLoop b l h s)"
proof (induction b l h s rule: middleLoop.induct)
  case (1 b l h s)
  show ?case
  proof (cases "middleCond b l h s")
    case True
    then show ?thesis using 1 by (subst while_option_unfold, subst middleLoop.simps) simp
  next
    case False
    then show ?thesis by (subst while_option_unfold, subst middleLoop.simps) simp
  qed
qed

lemma middleStep_indices:
  "middleCond b l h s \<Longrightarrow>
     bothEndHaveIndex s \<le> bothEndHaveIndex (middleStep b l h s) \<and>
     onlyLikeIndex s \<le> onlyLikeIndex (middleStep b l h s) \<and>
     haveEndLikeIndex s \<le> haveEndLikeIndex (middleStep b l h s) \<and>
     bothEndHaveIndex s + onlyLikeIndex s + haveEndLikeIndex s
       < bothEndHaveIndex (middleStep b l h s) + onlyLikeIndex (middleStep b l h s) +
         haveEndLikeIndex (middleStep b l h s)"
  unfolding middleCond_def middleStep_def pushBothEndHave_def pushBuffer_def
  by auto

text \<open>
  C10. The interleaving loop terminates from every state: run as a \<open>while\<close> that yields
  \<open>None\<close> when it does not stop, it yields a final state, the one the recursive model
  computes. While the loop condition holds, one pass through the body lowers none of the
  three bucket indices and strictly raises at least one of them. Every other loop of the
  layout runs over a finite list, so the whole function returns on every input.
\<close>

theorem middle_loop_terminates:
  "(\<exists>t. while_option (middleCond b l h) (middleStep b l h) s = Some t \<and> t = middleLoop b l h s) \<and>
   (middleCond b l h s \<longrightarrow>
      bothEndHaveIndex s \<le> bothEndHaveIndex (middleStep b l h s) \<and>
      onlyLikeIndex s \<le> onlyLikeIndex (middleStep b l h s) \<and>
      haveEndLikeIndex s \<le> haveEndLikeIndex (middleStep b l h s) \<and>
      bothEndHaveIndex s + onlyLikeIndex s + haveEndLikeIndex s
        < bothEndHaveIndex (middleStep b l h s) + onlyLikeIndex (middleStep b l h s) +
          haveEndLikeIndex (middleStep b l h s))"
proof
  show "\<exists>t. while_option (middleCond b l h) (middleStep b l h) s = Some t \<and> t = middleLoop b l h s"
    by (simp add: while_middleLoop)
next
  show "middleCond b l h s \<longrightarrow>
      bothEndHaveIndex s \<le> bothEndHaveIndex (middleStep b l h s) \<and>
      onlyLikeIndex s \<le> onlyLikeIndex (middleStep b l h s) \<and>
      haveEndLikeIndex s \<le> haveEndLikeIndex (middleStep b l h s) \<and>
      bothEndHaveIndex s + onlyLikeIndex s + haveEndLikeIndex s
        < bothEndHaveIndex (middleStep b l h s) + onlyLikeIndex (middleStep b l h s) +
          haveEndLikeIndex (middleStep b l h s)"
    using middleStep_indices [of b l h s] by blast
qed

theorem middle_loop_terminates_witness:
  "middleCond [1, 2 :: nat] [3] []
     \<lparr> bothEndHaveIndex = 1, onlyLikeIndex = 0, haveEndLikeIndex = 0, teamsInMiddle = [1] \<rparr> \<and>
   (1::nat) + 0 + 0 <
     bothEndHaveIndex (middleStep [1, 2 :: nat] [3] []
        \<lparr> bothEndHaveIndex = 1, onlyLikeIndex = 0, haveEndLikeIndex = 0, teamsInMiddle = [1] \<rparr>) +
     onlyLikeIndex (middleStep [1, 2 :: nat] [3] []
        \<lparr> bothEndHaveIndex = 1, onlyLikeIndex = 0, haveEndLikeIndex = 0, teamsInMiddle = [1] \<rparr>) +
     haveEndLikeIndex (middleStep [1, 2 :: nat] [3] []
        \<lparr> bothEndHaveIndex = 1, onlyLikeIndex = 0, haveEndLikeIndex = 0, teamsInMiddle = [1] \<rparr>)"
  using middle_loop_terminates [of "[1, 2 :: nat]" "[3]" "[]"
      "\<lparr> bothEndHaveIndex = 1, onlyLikeIndex = 0, haveEndLikeIndex = 0, teamsInMiddle = [1] \<rparr>"]
  by (simp add: middleCond_def)

section \<open>The middle block\<close>

lemma drop_nth_Cons: "i < length xs \<Longrightarrow> drop i xs = xs ! i # drop (Suc i) xs"
  by (simp add: Cons_nth_drop_Suc)

lemma middleLoop_rounds:
  "teamsInMiddle (middleLoop b l h s) =
     teamsInMiddle s @
       rounds (drop (bothEndHaveIndex s) b) (drop (onlyLikeIndex s) l) (drop (haveEndLikeIndex s) h)"
proof (induction b l h s rule: middleLoop.induct)
  case (1 b l h s)
  show ?case
  proof (cases "middleCond b l h s")
    case False
    then show ?thesis
      by (subst middleLoop.simps) (simp add: middleCond_def)
  next
    case True
    have step: "teamsInMiddle (middleStep b l h s) @
        rounds (drop (bothEndHaveIndex (middleStep b l h s)) b)
          (drop (onlyLikeIndex (middleStep b l h s)) l)
          (drop (haveEndLikeIndex (middleStep b l h s)) h) =
      teamsInMiddle s @
       rounds (drop (bothEndHaveIndex s) b) (drop (onlyLikeIndex s) l) (drop (haveEndLikeIndex s) h)"
      using True
      unfolding middleCond_def middleStep_def pushBothEndHave_def pushBuffer_def
      by (auto simp: drop_nth_Cons)
    show ?thesis
      using True 1 step by (subst middleLoop.simps) simp
  qed
qed

lemma middleBlock_rounds: "middleBlock b l h = middleBlock_spec b l h"
  unfolding middleBlock_def middleBlock_spec_def
  by (cases b) (simp_all add: middleLoop_rounds)

lemma mset_rounds: "mset (rounds b l h) = mset b + mset l + mset h"
  by (induction b l h rule: rounds.induct) simp_all

lemma mset_middleBlock: "mset (middleBlock b l h) = mset b + mset l + mset h"
  by (cases b) (simp_all add: middleBlock_rounds middleBlock_spec_def mset_rounds)

text \<open>
  C5. The middle block the index loop builds is the one the specification describes:
  with a BothEndHave team, that bucket's first team and then the rounds over what is
  left of the three buckets; without one, all OnlyLike teams and then all HaveEndLike
  teams.
\<close>

theorem middleBlock_as_specified:
  "middleBlock bothEndHave onlyLike haveEndLike =
     middleBlock_spec bothEndHave onlyLike haveEndLike"
proof (cases bothEndHave)
  case Nil
  then show ?thesis by (simp add: middleBlock_def middleBlock_spec_def)
next
  case (Cons b bs)
  have "teamsInMiddle
          (middleLoop (b # bs) onlyLike haveEndLike
             \<lparr> bothEndHaveIndex = 1, onlyLikeIndex = 0, haveEndLikeIndex = 0,
               teamsInMiddle = [(b # bs) ! 0] \<rparr>) =
        b # rounds bs onlyLike haveEndLike"
    by (simp add: middleLoop_rounds)
  with Cons show ?thesis by (simp add: middleBlock_def middleBlock_spec_def)
qed

section \<open>The ordering inside a team\<close>

lemma slice_append: "a \<le> b \<Longrightarrow> b \<le> c \<Longrightarrow> slice xs a b @ slice xs b c = slice xs a c"
proof -
  assume ab: "a \<le> b" and bc: "b \<le> c"
  have "take (b - a) (drop a xs) @ take (c - b) (drop (b - a) (drop a xs)) =
        take ((b - a) + (c - b)) (drop a xs)"
    by (simp only: take_add)
  with ab bc show ?thesis by (simp add: slice_def)
qed

lemma slice_0: "slice xs 0 n = take n xs"
  by (simp add: slice_def)

lemma haveLoop_mset:
  "mset (fst (haveLoop H L g x i (t, li))) =
     mset t + mset (drop i H) + mset (slice L li (snd (haveLoop H L g x i (t, li)))) \<and>
   li \<le> snd (haveLoop H L g x i (t, li))"
proof (induction H L g x i "(t, li)" arbitrary: t li rule: haveLoop.induct)
  case (1 H L g x i t li)
  show ?case
  proof (cases "i < length H")
    case False
    then show ?thesis by (subst (1 2 3) haveLoop.simps) (simp add: slice_def)
  next
    case True
    note lt = True
    show ?thesis
    proof (cases "i < length H - 1")
      case True
      let ?n = "li + (g + (if x > i + 1 then 1 else 0))"
      let ?r = "haveLoop H L g x (i + 1) ((t @ [H ! i]) @ slice L li ?n, ?n)"
      have eq: "haveLoop H L g x i (t, li) = ?r"
        using lt True by (subst haveLoop.simps) simp
      have ih: "mset (fst ?r) = mset ((t @ [H ! i]) @ slice L li ?n) + mset (drop (i + 1) H) +
                  mset (slice L ?n (snd ?r)) \<and> ?n \<le> snd ?r"
        using 1(1) [OF lt True] by simp
      have "slice L li ?n @ slice L ?n (snd ?r) = slice L li (snd ?r)"
        using ih by (intro slice_append) simp_all
      then have "mset (slice L li ?n) + mset (slice L ?n (snd ?r)) = mset (slice L li (snd ?r))"
        by (metis mset_append)
      moreover have "drop i H = H ! i # drop (i + 1) H"
        using lt by (simp add: Cons_nth_drop_Suc)
      ultimately show ?thesis
        using ih by (simp add: eq)
    next
      case False
      let ?r = "haveLoop H L g x (i + 1) (t @ [H ! i], li)"
      have eq: "haveLoop H L g x i (t, li) = ?r"
        using lt False by (subst haveLoop.simps) simp
      have ih: "mset (fst ?r) = mset (t @ [H ! i]) + mset (drop (i + 1) H) +
                  mset (slice L li (snd ?r)) \<and> li \<le> snd ?r"
        using 1(2) [OF lt False] by simp
      moreover have "drop i H = H ! i # drop (i + 1) H"
        using lt by (simp add: Cons_nth_drop_Suc)
      ultimately show ?thesis
        by (simp add: eq)
    qed
  qed
qed

lemma haveLoop_prefix: "\<exists>Y. fst (haveLoop H L g x i (t, li)) = t @ Y"
proof (induction H L g x i "(t, li)" arbitrary: t li rule: haveLoop.induct)
  case (1 H L g x i t li)
  show ?case
  proof (cases "i < length H")
    case False
    then show ?thesis by (subst haveLoop.simps) simp
  next
    case True
    note lt = True
    show ?thesis
    proof (cases "i < length H - 1")
      case True
      let ?n = "li + (g + (if x > i + 1 then 1 else 0))"
      obtain Y where "fst (haveLoop H L g x (i + 1) ((t @ [H ! i]) @ slice L li ?n, ?n)) =
           ((t @ [H ! i]) @ slice L li ?n) @ Y"
        using 1(1) [OF lt True] by blast
      then show ?thesis using lt True by (subst haveLoop.simps) simp
    next
      case False
      obtain Y where "fst (haveLoop H L g x (i + 1) (t @ [H ! i], li)) = (t @ [H ! i]) @ Y"
        using 1(2) [OF lt False] by blast
      then show ?thesis using lt False by (subst haveLoop.simps) simp
    qed
  qed
qed

lemma haveLoop_first:
  assumes "i < length H"
  shows "\<exists>Y. fst (haveLoop H L g x i (t, li)) = t @ H ! i # Y"
proof (cases "i < length H - 1")
  case True
  let ?n = "li + (g + (if x > i + 1 then 1 else 0))"
  obtain Y where "fst (haveLoop H L g x (i + 1) ((t @ [H ! i]) @ slice L li ?n, ?n)) =
       ((t @ [H ! i]) @ slice L li ?n) @ Y"
    using haveLoop_prefix by blast
  then show ?thesis using assms True by (subst haveLoop.simps) simp
next
  case False
  obtain Y where "fst (haveLoop H L g x (i + 1) (t @ [H ! i], li)) = (t @ [H ! i]) @ Y"
    using haveLoop_prefix by blast
  then show ?thesis using assms False by (subst haveLoop.simps) simp
qed

lemma haveLoop_no_likes: "fst (haveLoop H [] g x i (t, li)) = t @ drop i H"
proof (induction H "[] :: person list" g x i "(t, li)" arbitrary: t li rule: haveLoop.induct)
  case (1 H g x i t li)
  show ?case
  proof (cases "i < length H")
    case False
    then show ?thesis by (subst haveLoop.simps) simp
  next
    case True
    note lt = True
    have d: "drop i H = H ! i # drop (i + 1) H"
      using lt by (simp add: Cons_nth_drop_Suc)
    show ?thesis
    proof (cases "i < length H - 1")
      case True
      then show ?thesis using lt 1(1) [OF lt True] d
        by (subst haveLoop.simps) (simp add: slice_def)
    next
      case False
      then show ?thesis using lt 1(2) [OF lt False] d
        by (subst haveLoop.simps) simp
    qed
  qed
qed

lemma orderTeam_few:
  "length (haveOf team) \<le> 1 \<Longrightarrow> orderTeam team = avoidOf team @ likeOf team @ haveOf team"
  by (simp add: orderTeam_def Let_def)

lemma orderTeam_many:
  "1 < length (haveOf team) \<Longrightarrow>
     orderTeam team =
       (if snd (alternated team) < length (likeOf team)
        then fst (alternated team) @ drop (snd (alternated team)) (likeOf team)
        else fst (alternated team))"
  by (simp add: orderTeam_def Let_def case_prod_beta alternated_def initialLikes_def)

lemma initialLikes_le: "initialLikes team \<le> length (likeOf team)"
proof -
  let ?l = "length (likeOf team)" and ?h = "length (haveOf team)"
  have "?l = (?h + 1) * (?l div (?h + 1)) + ?l mod (?h + 1)"
    by (rule mult_div_mod_eq [symmetric])
  moreover have "?l div (?h + 1) \<le> (?h + 1) * (?l div (?h + 1))" by simp
  ultimately show ?thesis unfolding initialLikes_def by auto
qed

lemma initialLikes_pos: "likeOf team \<noteq> [] \<Longrightarrow> 0 < initialLikes team"
proof -
  assume ne: "likeOf team \<noteq> []"
  let ?l = "length (likeOf team)" and ?h = "length (haveOf team)"
  have "?l = (?h + 1) * (?l div (?h + 1)) + ?l mod (?h + 1)"
    by (rule mult_div_mod_eq [symmetric])
  moreover have "0 < ?l" using ne by simp
  ultimately have "0 < ?l div (?h + 1) \<or> 0 < ?l mod (?h + 1)"
    by (metis add.right_neutral mult_0_right neq0_conv)
  then show ?thesis unfolding initialLikes_def by auto
qed

lemma take_drop_mset: "mset (take n xs) + mset (drop n xs) = mset xs"
  by (metis append_take_drop_id mset_append)

lemma mset_orderTeam:
  "mset (orderTeam team) = mset (avoidOf team) + mset (likeOf team) + mset (haveOf team)"
proof (cases "1 < length (haveOf team)")
  case False
  then show ?thesis by (simp add: orderTeam_few)
next
  case True
  let ?L = "likeOf team" and ?r = "alternated team"
  have m: "mset (fst ?r) =
      mset (avoidOf team @ slice ?L 0 (initialLikes team)) + mset (drop 0 (haveOf team)) +
      mset (slice ?L (initialLikes team) (snd ?r))"
    and le: "initialLikes team \<le> snd ?r"
    unfolding alternated_def using haveLoop_mset by blast+
  have "slice ?L 0 (initialLikes team) @ slice ?L (initialLikes team) (snd ?r) = slice ?L 0 (snd ?r)"
    using le by (intro slice_append) simp_all
  then have "mset (slice ?L 0 (initialLikes team)) + mset (slice ?L (initialLikes team) (snd ?r)) =
      mset (take (snd ?r) ?L)"
    by (metis mset_append slice_0)
  with m have m2: "mset (fst ?r) = mset (avoidOf team) + mset (take (snd ?r) ?L) + mset (haveOf team)"
    by (simp add: ac_simps)
  show ?thesis
  proof (cases "snd ?r < length ?L")
    case True
    have "mset (take (snd ?r) ?L) + mset (drop (snd ?r) ?L) = mset ?L"
      by (rule take_drop_mset)
    then show ?thesis
      using True \<open>1 < length (haveOf team)\<close> m2 by (simp add: orderTeam_many ac_simps)
  next
    case False
    then show ?thesis
      using \<open>1 < length (haveOf team)\<close> m2 by (simp add: orderTeam_many)
  qed
qed

lemma mset_classified:
  "mset (avoidOf team) + mset (likeOf team) + mset (haveOf team) =
   mset (filter (\<lambda>p. dogStatus p \<noteq> None) team)"
proof (induction team)
  case Nil
  show ?case by simp
next
  case (Cons p team)
  show ?case
  proof (cases "dogStatus p")
    case None
    with Cons show ?thesis by simp
  next
    case (Some s)
    with Cons show ?thesis by (cases s) simp_all
  qed
qed

lemma set_orderTeam: "set (orderTeam team) = {p \<in> set team. dogStatus p \<noteq> None}"
proof -
  have "set_mset (mset (orderTeam team)) = set_mset (mset (filter (\<lambda>p. dogStatus p \<noteq> None) team))"
    by (simp only: mset_orderTeam mset_classified)
  then show ?thesis by simp
qed

lemma orderTeam_first_have:
  assumes "1 < length (haveOf team)"
  shows "\<exists>Y. orderTeam team =
     (avoidOf team @ take (initialLikes team) (likeOf team)) @ haveOf team ! 0 # Y"
proof -
  have "0 < length (haveOf team)" using assms by linarith
  then obtain Y where "fst (alternated team) =
      (avoidOf team @ slice (likeOf team) 0 (initialLikes team)) @ haveOf team ! 0 # Y"
    unfolding alternated_def using haveLoop_first by blast
  then show ?thesis using assms by (simp add: orderTeam_many slice_0)
qed

lemma firstBuffer_orderTeam:
  assumes "1 < length (haveOf team)"
  shows "firstBuffer (orderTeam team) = initialLikes team"
proof -
  obtain Y where Y: "orderTeam team =
     (avoidOf team @ take (initialLikes team) (likeOf team)) @ haveOf team ! 0 # Y"
    using orderTeam_first_have [OF assms] by blast
  have "0 < length (haveOf team)" using assms by linarith
  then have "haveOf team ! 0 \<in> set (haveOf team)" by (rule nth_mem)
  then have h: "dogStatus (haveOf team ! 0) = Some HAVE" by simp
  have nh: "\<forall>p \<in> set (avoidOf team @ take (initialLikes team) (likeOf team)). dogStatus p \<noteq> Some HAVE"
    by (auto dest: in_set_takeD)
  have tw: "takeWhile (\<lambda>p. dogStatus p \<noteq> Some HAVE) (orderTeam team) =
            avoidOf team @ take (initialLikes team) (likeOf team)"
    unfolding Y using nh h by (subst takeWhile_append2) auto
  have "likeOf (take (initialLikes team) (likeOf team)) = take (initialLikes team) (likeOf team)"
    by (rule filter_True) (auto dest: in_set_takeD)
  moreover have "likeOf (avoidOf team) = []"
    by (rule filter_False) auto
  ultimately show ?thesis
    using initialLikes_le [of team] by (simp add: firstBuffer_def tw)
qed

lemma orderTeam_shape:
  "\<exists>R. orderTeam team = avoidOf team @ R \<and>
       mset R = mset (likeOf team) + mset (haveOf team) \<and>
       (likeOf team \<noteq> [] \<longrightarrow> R \<noteq> [] \<and> hd R \<in> set (likeOf team))"
proof (cases "1 < length (haveOf team)")
  case False
  have "likeOf team \<noteq> [] \<longrightarrow> hd (likeOf team @ haveOf team) \<in> set (likeOf team)"
    by (metis hd_append2 hd_in_set)
  with False show ?thesis
    by (intro exI [of _ "likeOf team @ haveOf team"]) (simp add: orderTeam_few)
next
  case True
  obtain Y where Y: "orderTeam team =
     (avoidOf team @ take (initialLikes team) (likeOf team)) @ haveOf team ! 0 # Y"
    using orderTeam_first_have [OF True] by blast
  let ?R = "take (initialLikes team) (likeOf team) @ haveOf team ! 0 # Y"
  have eq: "orderTeam team = avoidOf team @ ?R" using Y by simp
  have "mset (avoidOf team) + mset ?R = mset (avoidOf team) + (mset (likeOf team) + mset (haveOf team))"
    using mset_orderTeam [of team] unfolding eq by (simp add: ac_simps)
  then have m: "mset ?R = mset (likeOf team) + mset (haveOf team)"
    by (simp only: add_left_cancel)
  have "likeOf team \<noteq> [] \<longrightarrow> hd ?R \<in> set (likeOf team)"
  proof
    assume ne: "likeOf team \<noteq> []"
    then have "take (initialLikes team) (likeOf team) \<noteq> []"
      using initialLikes_pos [OF ne] by simp
    then have "hd ?R = hd (take (initialLikes team) (likeOf team))" by simp
    also have "\<dots> = hd (likeOf team)"
      using initialLikes_pos [OF ne] by simp
    finally show "hd ?R \<in> set (likeOf team)" using ne by (metis hd_in_set)
  qed
  with eq m show ?thesis by blast
qed

text \<open>
  C3, as amended. In a team with \<open>h > 1\<close> HAVE members and \<open>l\<close> LIKE members, the number
  of LIKE members before the first HAVE member of the ordered team is
  \<open>l div (h + 1)\<close>, plus one when \<open>l mod (h + 1) > 0\<close>; for \<open>h = 2\<close> and \<open>l = 5\<close> that
  is 2.
\<close>

theorem first_buffer_size:
  assumes "1 < length (haveOf team)"
  shows "firstBuffer (orderTeam team) =
           length (likeOf team) div (length (haveOf team) + 1) +
           (if 0 < length (likeOf team) mod (length (haveOf team) + 1) then 1 else 0) \<and>
         (length (haveOf team) = 2 \<and> length (likeOf team) = 5 \<longrightarrow>
            firstBuffer (orderTeam team) = 2)"
proof -
  have eq: "firstBuffer (orderTeam team) =
           length (likeOf team) div (length (haveOf team) + 1) +
           (if 0 < length (likeOf team) mod (length (haveOf team) + 1) then 1 else 0)"
    using firstBuffer_orderTeam [OF assms] by (simp add: initialLikes_def)
  have "length (haveOf team) = 2 \<and> length (likeOf team) = 5 \<longrightarrow>
            firstBuffer (orderTeam team) = 2"
  proof
    assume "length (haveOf team) = 2 \<and> length (likeOf team) = 5"
    then show "firstBuffer (orderTeam team) = 2" by (simp add: eq)
  qed
  with eq show ?thesis by blast
qed

theorem first_buffer_size_witness:
  "1 < length (haveOf twoHaveFiveLike) \<and> length (haveOf twoHaveFiveLike) = 2 \<and>
   length (likeOf twoHaveFiveLike) = 5 \<and> firstBuffer (orderTeam twoHaveFiveLike) = 2"
proof -
  have h: "length (haveOf twoHaveFiveLike) = 2" and l: "length (likeOf twoHaveFiveLike) = 5"
    by (simp_all add: twoHaveFiveLike_def teamMember_def)
  have "1 < length (haveOf twoHaveFiveLike)" using h by simp
  from first_buffer_size [OF this] h l show ?thesis by simp
qed

text \<open>
  The claim as the specification words it gives 3 for \<open>h = 2\<close>, \<open>l = 5\<close>. The source,
  run on a team with two HAVE and five LIKE members, puts two LIKE members before the
  first HAVE member.
\<close>

theorem first_buffer_not_three:
  "length (haveOf twoHaveFiveLike) = 2 \<and> length (likeOf twoHaveFiveLike) = 5 \<and>
   map person_name (orderTeam twoHaveFiveLike) =
     [''l1'', ''l2'', ''h1'', ''l3'', ''l4'', ''h2'', ''l5''] \<and>
   firstBuffer (orderTeam twoHaveFiveLike) \<noteq> 3"
  by (simp add: twoHaveFiveLike_def teamMember_def firstBuffer_def orderTeam_def
      haveLoop.simps slice_def)

section \<open>AVOID and HAVE inside a team block\<close>

lemma no_avoid_no_adjacency:
  "\<forall>p \<in> set ys. dogStatus p \<noteq> Some AVOID \<Longrightarrow> \<not> avoidNextToHave ys"
  by (induction ys rule: avoidNextToHave.induct) auto

lemma avoid_block_no_adjacency:
  assumes "\<forall>p \<in> set xs. dogStatus p = Some AVOID"
    and "\<forall>p \<in> set ys. dogStatus p \<noteq> Some AVOID"
    and "ys \<noteq> [] \<longrightarrow> dogStatus (hd ys) \<noteq> Some HAVE"
  shows "\<not> avoidNextToHave (xs @ ys)"
  using assms
proof (induction xs)
  case Nil
  then show ?case by (simp add: no_avoid_no_adjacency)
next
  case (Cons x xs)
  show ?case
  proof (cases "xs @ ys")
    case Nil
    then show ?thesis by simp
  next
    case (Cons q rest)
    have q: "dogStatus q \<noteq> Some HAVE"
    proof (cases xs)
      case Nil
      with Cons Cons.prems(3) show ?thesis by auto
    next
      case (Cons x' xs')
      with \<open>xs @ ys = q # rest\<close> have "q = x'" by simp
      with Cons Cons.prems(1) show ?thesis by simp
    qed
    have "\<not> avoidNextToHave (xs @ ys)"
      using Cons.IH Cons.prems by simp
    with q Cons.prems(1) Cons show ?thesis by simp
  qed
qed

text \<open>
  C8. In a team with at least one LIKE member the ordered block has no AVOID member next
  to a HAVE member; so such a neighbourhood inside a block can only occur in a team
  without LIKE members.
\<close>

theorem no_avoid_next_to_have:
  assumes "likeOf team \<noteq> []"
  shows "\<not> avoidNextToHave (orderTeam team)"
proof -
  obtain R where eq: "orderTeam team = avoidOf team @ R"
    and m: "mset R = mset (likeOf team) + mset (haveOf team)"
    and hdR: "likeOf team \<noteq> [] \<longrightarrow> R \<noteq> [] \<and> hd R \<in> set (likeOf team)"
    using orderTeam_shape by blast
  have "set_mset (mset R) = set (likeOf team) \<union> set (haveOf team)"
    by (simp only: m set_mset_union set_mset_mset)
  then have setR: "set R = set (likeOf team) \<union> set (haveOf team)" by simp
  have 1: "\<forall>p \<in> set (avoidOf team). dogStatus p = Some AVOID" by simp
  have 2: "\<forall>p \<in> set R. dogStatus p \<noteq> Some AVOID" unfolding setR by auto
  have "hd R \<in> set (likeOf team)" using hdR assms by blast
  then have 3: "R \<noteq> [] \<longrightarrow> dogStatus (hd R) \<noteq> Some HAVE" by simp
  show ?thesis unfolding eq by (rule avoid_block_no_adjacency [OF 1 2 3])
qed

theorem no_avoid_next_to_have_witness:
  "likeOf scenario1 \<noteq> [] \<and> \<not> avoidNextToHave (orderTeam scenario1)"
proof -
  have "likeOf scenario1 \<noteq> []" by (simp add: scenario1_def teamMember_def)
  from this no_avoid_next_to_have [OF this] show ?thesis by blast
qed

section \<open>Grouping\<close>

lemma firstSeen_snoc:
  "firstSeen (xs @ [x]) = (if x \<in> set xs then firstSeen xs else firstSeen xs @ [x])"
  by (simp add: firstSeen_def)

lemma set_firstSeen: "set (firstSeen xs) = set xs"
  by (simp add: firstSeen_def)

lemma distinct_firstSeen: "distinct (firstSeen xs)"
  by (simp add: firstSeen_def)

lemma pushToTeam_map:
  "distinct ks \<Longrightarrow>
   pushToTeam k p (map (\<lambda>k'. (k', G k')) ks) =
     (if k \<in> set ks then map (\<lambda>k'. (k', if k' = k then G k' @ [p] else G k')) ks
      else map (\<lambda>k'. (k', G k')) ks @ [(k, [p])])"
  by (induction ks) auto

lemma teamGroups_snoc:
  "teamGroups (ps @ [p]) = pushToTeam (teamKey p) p (teamGroups ps)"
  by (simp add: teamGroups_def)

lemma teamGroups_eq_spec: "teamGroups people = teamGroups_spec people"
proof (induction people rule: rev_induct)
  case Nil
  show ?case by (simp add: teamGroups_def teamGroups_spec_def firstSeen_def)
next
  case (snoc p ps)
  let ?ks = "firstSeen (map teamKey ps)"
  let ?k = "teamKey p"
  have step: "teamGroups (ps @ [p]) =
      pushToTeam ?k p (map (\<lambda>k'. (k', filter (\<lambda>q. teamKey q = k') ps)) ?ks)"
    using snoc by (simp add: teamGroups_snoc teamGroups_spec_def)
  show ?case
  proof (cases "?k \<in> set ?ks")
    case True
    then have ks: "firstSeen (map teamKey (ps @ [p])) = ?ks"
      by (simp add: firstSeen_snoc set_firstSeen)
    have "pushToTeam ?k p (map (\<lambda>k'. (k', filter (\<lambda>q. teamKey q = k') ps)) ?ks) =
          map (\<lambda>k'. (k', if k' = ?k then filter (\<lambda>q. teamKey q = k') ps @ [p]
                         else filter (\<lambda>q. teamKey q = k') ps)) ?ks"
      using True by (simp add: pushToTeam_map distinct_firstSeen)
    also have "\<dots> = map (\<lambda>k'. (k', filter (\<lambda>q. teamKey q = k') (ps @ [p]))) ?ks"
      by (rule map_cong) auto
    finally show ?thesis
      by (simp only: step teamGroups_spec_def ks)
  next
    case False
    then have ks: "firstSeen (map teamKey (ps @ [p])) = ?ks @ [?k]"
      by (simp add: firstSeen_snoc set_firstSeen)
    have none: "filter (\<lambda>q. teamKey q = ?k) ps = []"
      using False by (force simp: set_firstSeen filter_empty_conv image_iff)
    have A: "pushToTeam ?k p (map (\<lambda>k'. (k', filter (\<lambda>q. teamKey q = k') ps)) ?ks) =
          map (\<lambda>k'. (k', filter (\<lambda>q. teamKey q = k') ps)) ?ks @ [(?k, [p])]"
      using False by (simp add: pushToTeam_map distinct_firstSeen)
    have B: "map (\<lambda>k'. (k', filter (\<lambda>q. teamKey q = k') ps)) ?ks =
               map (\<lambda>k'. (k', filter (\<lambda>q. teamKey q = k') (ps @ [p]))) ?ks"
      using False by (intro map_cong) auto
    have C: "filter (\<lambda>q. teamKey q = ?k) (ps @ [p]) = [p]"
      using none by simp
    have D: "teamGroups_spec (ps @ [p]) =
            map (\<lambda>k'. (k', filter (\<lambda>q. teamKey q = k') (ps @ [p]))) ?ks @
            [(?k, filter (\<lambda>q. teamKey q = ?k) (ps @ [p]))]"
      unfolding teamGroups_spec_def ks by (simp only: map_append list.map)
    have "teamGroups (ps @ [p]) =
            map (\<lambda>k'. (k', filter (\<lambda>q. teamKey q = k') ps)) ?ks @ [(?k, [p])]"
      using step A by (rule trans)
    also have "\<dots> = map (\<lambda>k'. (k', filter (\<lambda>q. teamKey q = k') (ps @ [p]))) ?ks @ [(?k, [p])]"
      by (simp only: B)
    also have "\<dots> = teamGroups_spec (ps @ [p])"
      by (simp only: D C)
    finally show ?thesis .
  qed
qed

lemma teamGroups_keys: "map fst (teamGroups people) = firstSeen (map teamKey people)"
  by (simp add: teamGroups_eq_spec teamGroups_spec_def comp_def)

lemma teamGroups_member:
  "e \<in> set (teamGroups people) \<Longrightarrow>
     fst e \<in> teamKey ` set people \<and> snd e = filter (\<lambda>p. teamKey p = fst e) people"
  by (auto simp: teamGroups_eq_spec teamGroups_spec_def set_firstSeen)

section \<open>Classification\<close>

lemma error_eq: "(e :: error) = TypeError"
  by (cases e) simp

lemma filterE_pure:
  "\<forall>x \<in> set xs. f x = Inr (g x) \<Longrightarrow> filterE f xs = Inr (filter g xs)"
  by (induction xs) simp_all

lemma filterE_raises:
  "x \<in> set xs \<Longrightarrow> f x = Inl TypeError \<Longrightarrow> filterE f xs = Inl TypeError"
proof (induction xs)
  case Nil
  then show ?case by simp
next
  case (Cons y ys)
  then show ?case
    by (cases "f y"; cases "filterE f ys") (auto simp: error_eq)
qed

lemma callbacks_nonempty:
  assumes "snd e \<noteq> []"
  shows "endsWith s e = Inr (lastIs s e)"
    and "samePreferences e = Inr (allSame e)"
    and "differentPreferences e = Inr (\<not> allSame e)"
    and "startsWith s e = Inr (firstIs s e)"
    and "mixedEnding a b l e = Inr (mixed a b l e)"
  using assms
  by (simp_all add: endsWith_def samePreferences_def differentPreferences_def startsWith_def
      mixedEnding_def bindE_def lastStatus_def firstStatus_def lastIs_def firstIs_def allSame_def
      mixed_def)

lemma filterE_callbacks:
  assumes "\<forall>e \<in> set xs. snd e \<noteq> []"
  shows "filterE (endsWith s) xs = Inr (filter (lastIs s) xs)"
    and "filterE samePreferences xs = Inr (filter allSame xs)"
    and "filterE differentPreferences xs = Inr (filter (\<lambda>e. \<not> allSame e) xs)"
    and "filterE (startsWith s) xs = Inr (filter (firstIs s) xs)"
    and "filterE (mixedEnding a b l) xs = Inr (filter (mixed a b l) xs)"
  using assms by (simp_all add: filterE_pure callbacks_nonempty)

lemma categorize_nonempty:
  assumes "\<forall>e \<in> set teams. snd e \<noteq> []"
  shows "categorize teams =
     Inr \<lparr> teamsOnlyAvoid =
             filter (firstIs AVOID) (filter allSame (filter (\<lambda>e. \<not> withAvoidAndHave e) teams)),
           teamsAvoidEndLike =
             filter (mixed AVOID HAVE LIKE)
               (filter (\<lambda>e. \<not> allSame e) (filter (\<lambda>e. \<not> withAvoidAndHave e) teams)),
           teamsWithBothEndLike = filter (lastIs LIKE) (filter withAvoidAndHave teams),
           teamsWithBothEndHave = filter (lastIs HAVE) (filter withAvoidAndHave teams),
           teamsOnlyLike =
             filter (firstIs LIKE) (filter allSame (filter (\<lambda>e. \<not> withAvoidAndHave e) teams)),
           teamsHaveEndLike =
             filter (mixed HAVE AVOID LIKE)
               (filter (\<lambda>e. \<not> allSame e) (filter (\<lambda>e. \<not> withAvoidAndHave e) teams)),
           teamsHaveEndHave =
             filter (mixed HAVE AVOID HAVE)
               (filter (\<lambda>e. \<not> allSame e) (filter (\<lambda>e. \<not> withAvoidAndHave e) teams)),
           teamsOnlyHave =
             filter (firstIs HAVE) (filter allSame (filter (\<lambda>e. \<not> withAvoidAndHave e) teams)) \<rparr>"
proof -
  have ne: "\<And>P. \<forall>e \<in> set (filter P teams). snd e \<noteq> []"
    "\<And>P Q. \<forall>e \<in> set (filter Q (filter P teams)). snd e \<noteq> []"
    using assms by simp_all
  show ?thesis
    unfolding categorize_def Let_def
    by (simp add: filterE_callbacks [OF ne(1)] filterE_callbacks [OF ne(2)] bindE_def)
qed

lemma categorize_empty:
  assumes "e \<in> set teams" and "snd e = []"
  shows "categorize teams = Inl TypeError"
proof -
  let ?both = "filter withAvoidAndHave teams"
  let ?rem = "filter (\<lambda>e. \<not> withAvoidAndHave e) teams"
  have "\<forall>e \<in> set ?both. snd e \<noteq> []"
    by (auto simp: withAvoidAndHave_def someStatus_def)
  then have both: "filterE (endsWith HAVE) ?both = Inr (filter (lastIs HAVE) ?both)"
    "filterE (endsWith LIKE) ?both = Inr (filter (lastIs LIKE) ?both)"
    by (simp_all add: filterE_callbacks)
  have "e \<in> set ?rem"
    using assms by (simp add: withAvoidAndHave_def someStatus_def)
  moreover have "samePreferences e = Inl TypeError"
    using assms by (simp add: samePreferences_def firstStatus_def bindE_def)
  ultimately have "filterE samePreferences ?rem = Inl TypeError"
    by (rule filterE_raises)
  then show ?thesis
    unfolding categorize_def Let_def by (simp add: both bindE_def)
qed

lemma same_first:
  assumes "team \<noteq> []"
  shows "(list_all (\<lambda>p. dogStatus p = dogStatus (hd team)) team \<and> dogStatus (hd team) = Some s) =
         list_all (\<lambda>p. dogStatus p = Some s) team"
proof -
  have "hd team \<in> set team" using assms by simp
  then show ?thesis by (auto simp: list_all_iff)
qed

lemma in_bucket_iff:
  assumes "snd e \<noteq> []"
  shows "(\<not> withAvoidAndHave e \<and> allSame e \<and> firstIs AVOID e) = (category (snd e) = Some OnlyAvoid)"
    and "(\<not> withAvoidAndHave e \<and> allSame e \<and> firstIs LIKE e) = (category (snd e) = Some OnlyLike)"
    and "(\<not> withAvoidAndHave e \<and> allSame e \<and> firstIs HAVE e) = (category (snd e) = Some OnlyHave)"
    and "(\<not> withAvoidAndHave e \<and> \<not> allSame e \<and> mixed AVOID HAVE LIKE e) = (category (snd e) = Some AvoidEndLike)"
    and "(\<not> withAvoidAndHave e \<and> \<not> allSame e \<and> mixed HAVE AVOID LIKE e) = (category (snd e) = Some HaveEndLike)"
    and "(\<not> withAvoidAndHave e \<and> \<not> allSame e \<and> mixed HAVE AVOID HAVE e) = (category (snd e) = Some HaveEndHave)"
    and "(withAvoidAndHave e \<and> lastIs HAVE e) = (category (snd e) = Some BothEndHave)"
    and "(withAvoidAndHave e \<and> lastIs LIKE e) = (category (snd e) = Some BothEndLike)"
proof -
  let ?t = "snd e"
  have all: "\<And>s. list_all (\<lambda>p. dogStatus p = Some s) ?t = (allSame e \<and> firstIs s e)"
    unfolding allSame_def firstIs_def using same_first [OF assms] by blast
  have excl: "\<And>s. list_all (\<lambda>p. dogStatus p = Some s) ?t \<Longrightarrow> \<not> withAvoidAndHave e"
    unfolding withAvoidAndHave_def someStatus_def list_all_iff list_ex_iff by auto
  have first: "\<And>s s'. firstIs s e \<Longrightarrow> firstIs s' e \<Longrightarrow> s = s'"
    unfolding firstIs_def by simp
  have cat: "category ?t =
     (if withAvoidAndHave e then
        (if lastIs HAVE e then Some BothEndHave
         else if lastIs LIKE e then Some BothEndLike else None)
      else if allSame e \<and> firstIs AVOID e then Some OnlyAvoid
      else if allSame e \<and> firstIs LIKE e then Some OnlyLike
      else if allSame e \<and> firstIs HAVE e then Some OnlyHave
      else if allSame e then None
      else if mixed AVOID HAVE LIKE e then Some AvoidEndLike
      else if mixed HAVE AVOID LIKE e then Some HaveEndLike
      else if mixed HAVE AVOID HAVE e then Some HaveEndHave
      else None)"
    using assms unfolding category_def all
    by (simp add: withAvoidAndHave_def lastIs_def mixed_def allSame_def)
  have last: "\<not> (lastIs HAVE e \<and> lastIs LIKE e)"
    unfolding lastIs_def by simp
  have mix: "\<not> (mixed AVOID HAVE LIKE e \<and> mixed HAVE AVOID LIKE e)"
    "\<not> (mixed AVOID HAVE LIKE e \<and> mixed HAVE AVOID HAVE e)"
    "\<not> (mixed HAVE AVOID LIKE e \<and> mixed HAVE AVOID HAVE e)"
    unfolding mixed_def lastIs_def by auto
  have fst: "\<not> (firstIs AVOID e \<and> firstIs LIKE e)" "\<not> (firstIs AVOID e \<and> firstIs HAVE e)"
    "\<not> (firstIs LIKE e \<and> firstIs HAVE e)"
    unfolding firstIs_def by auto
  show "(\<not> withAvoidAndHave e \<and> allSame e \<and> firstIs AVOID e) = (category (snd e) = Some OnlyAvoid)"
    unfolding cat using fst by auto
  show "(\<not> withAvoidAndHave e \<and> allSame e \<and> firstIs LIKE e) = (category (snd e) = Some OnlyLike)"
    unfolding cat using fst by auto
  show "(\<not> withAvoidAndHave e \<and> allSame e \<and> firstIs HAVE e) = (category (snd e) = Some OnlyHave)"
    unfolding cat using fst by auto
  show "(\<not> withAvoidAndHave e \<and> \<not> allSame e \<and> mixed AVOID HAVE LIKE e) = (category (snd e) = Some AvoidEndLike)"
    unfolding cat using mix by auto
  show "(\<not> withAvoidAndHave e \<and> \<not> allSame e \<and> mixed HAVE AVOID LIKE e) = (category (snd e) = Some HaveEndLike)"
    unfolding cat using mix by auto
  show "(\<not> withAvoidAndHave e \<and> \<not> allSame e \<and> mixed HAVE AVOID HAVE e) = (category (snd e) = Some HaveEndHave)"
    unfolding cat using mix by auto
  show "(withAvoidAndHave e \<and> lastIs HAVE e) = (category (snd e) = Some BothEndHave)"
    unfolding cat using last by auto
  show "(withAvoidAndHave e \<and> lastIs LIKE e) = (category (snd e) = Some BothEndLike)"
    unfolding cat using last by auto
qed

lemma filter2:
  "filter Q (filter P xs) = filter (\<lambda>x. P x \<and> Q x) xs"
  by (induction xs) auto

lemma filter_teams_cong:
  assumes "\<forall>e \<in> set teams. snd e \<noteq> []" and "\<And>e. snd e \<noteq> [] \<Longrightarrow> P e = Q e"
  shows "filter P teams = filter Q teams"
  using assms by (intro filter_cong) auto

lemma categorize_category:
  assumes "\<forall>e \<in> set teams. snd e \<noteq> []"
  shows "\<exists>b. categorize teams = Inr b \<and>
           (\<forall>c. bucket c b = filter (\<lambda>e. category (snd e) = Some c) teams)"
proof -
  let ?b = "\<lparr> teamsOnlyAvoid = filter (\<lambda>e. category (snd e) = Some OnlyAvoid) teams,
           teamsAvoidEndLike = filter (\<lambda>e. category (snd e) = Some AvoidEndLike) teams,
           teamsWithBothEndLike = filter (\<lambda>e. category (snd e) = Some BothEndLike) teams,
           teamsWithBothEndHave = filter (\<lambda>e. category (snd e) = Some BothEndHave) teams,
           teamsOnlyLike = filter (\<lambda>e. category (snd e) = Some OnlyLike) teams,
           teamsHaveEndLike = filter (\<lambda>e. category (snd e) = Some HaveEndLike) teams,
           teamsHaveEndHave = filter (\<lambda>e. category (snd e) = Some HaveEndHave) teams,
           teamsOnlyHave = filter (\<lambda>e. category (snd e) = Some OnlyHave) teams \<rparr>"
  have 1: "filter (\<lambda>e. \<not> withAvoidAndHave e \<and> allSame e \<and> firstIs AVOID e) teams =
           filter (\<lambda>e. category (snd e) = Some OnlyAvoid) teams"
    by (rule filter_teams_cong [OF assms]) (rule in_bucket_iff)
  have 2: "filter (\<lambda>e. \<not> withAvoidAndHave e \<and> allSame e \<and> firstIs LIKE e) teams =
           filter (\<lambda>e. category (snd e) = Some OnlyLike) teams"
    by (rule filter_teams_cong [OF assms]) (rule in_bucket_iff)
  have 3: "filter (\<lambda>e. \<not> withAvoidAndHave e \<and> allSame e \<and> firstIs HAVE e) teams =
           filter (\<lambda>e. category (snd e) = Some OnlyHave) teams"
    by (rule filter_teams_cong [OF assms]) (rule in_bucket_iff)
  have 4: "filter (\<lambda>e. \<not> withAvoidAndHave e \<and> \<not> allSame e \<and> mixed AVOID HAVE LIKE e) teams =
           filter (\<lambda>e. category (snd e) = Some AvoidEndLike) teams"
    by (rule filter_teams_cong [OF assms]) (rule in_bucket_iff)
  have 5: "filter (\<lambda>e. \<not> withAvoidAndHave e \<and> \<not> allSame e \<and> mixed HAVE AVOID LIKE e) teams =
           filter (\<lambda>e. category (snd e) = Some HaveEndLike) teams"
    by (rule filter_teams_cong [OF assms]) (rule in_bucket_iff)
  have 6: "filter (\<lambda>e. \<not> withAvoidAndHave e \<and> \<not> allSame e \<and> mixed HAVE AVOID HAVE e) teams =
           filter (\<lambda>e. category (snd e) = Some HaveEndHave) teams"
    by (rule filter_teams_cong [OF assms]) (rule in_bucket_iff)
  have 7: "filter (\<lambda>e. withAvoidAndHave e \<and> lastIs HAVE e) teams =
           filter (\<lambda>e. category (snd e) = Some BothEndHave) teams"
    by (rule filter_teams_cong [OF assms]) (rule in_bucket_iff)
  have 8: "filter (\<lambda>e. withAvoidAndHave e \<and> lastIs LIKE e) teams =
           filter (\<lambda>e. category (snd e) = Some BothEndLike) teams"
    by (rule filter_teams_cong [OF assms]) (rule in_bucket_iff)
  have "categorize teams = Inr ?b"
    unfolding categorize_nonempty [OF assms] filter2 conj_assoc
    by (simp only: 1 2 3 4 5 6 7 8)
  moreover have "\<forall>c. bucket c ?b = filter (\<lambda>e. category (snd e) = Some c) teams"
  proof
    fix c show "bucket c ?b = filter (\<lambda>e. category (snd e) = Some c) teams"
      by (cases c) simp_all
  qed
  ultimately show ?thesis by blast
qed

section \<open>The category of an ordered team\<close>

lemma orderTeam_classified: "p \<in> set (orderTeam g) \<Longrightarrow> dogStatus p \<noteq> None"
  by (simp add: set_orderTeam)

lemma someStatus_orderTeam: "someStatus s (orderTeam g) = someStatus s g"
  by (auto simp: someStatus_def list_ex_iff set_orderTeam)

lemma someStatus_filter: "someStatus s g = (filter (\<lambda>p. dogStatus p = Some s) g \<noteq> [])"
  by (auto simp: someStatus_def list_ex_iff filter_empty_conv)

lemma last_with_have:
  assumes "someStatus HAVE (orderTeam g)"
  shows "dogStatus (last (orderTeam g)) = Some HAVE \<or> dogStatus (last (orderTeam g)) = Some LIKE"
proof -
  obtain R where eq: "orderTeam g = avoidOf g @ R"
    and m: "mset R = mset (likeOf g) + mset (haveOf g)"
    using orderTeam_shape by blast
  have "set_mset (mset R) = set (likeOf g) \<union> set (haveOf g)"
    by (simp only: m set_mset_union set_mset_mset)
  then have setR: "set R = set (likeOf g) \<union> set (haveOf g)" by simp
  have "haveOf g \<noteq> []"
    using assms unfolding someStatus_orderTeam by (simp add: someStatus_filter)
  then have "R \<noteq> []" using setR by auto
  then have "last (orderTeam g) \<in> set R" unfolding eq by simp
  then show ?thesis unfolding setR by auto
qed

lemma last_avoid_like:
  assumes "\<not> someStatus HAVE (orderTeam g)"
    and "\<not> list_all (\<lambda>p. dogStatus p = Some AVOID) (orderTeam g)"
  shows "dogStatus (last (orderTeam g)) = Some LIKE"
proof -
  have h: "haveOf g = []"
    using assms(1) unfolding someStatus_orderTeam by (simp add: someStatus_filter)
  then have eq: "orderTeam g = avoidOf g @ likeOf g"
    by (simp add: orderTeam_few)
  have "likeOf g \<noteq> []"
  proof
    assume "likeOf g = []"
    then have "orderTeam g = avoidOf g" using eq by simp
    then have "list_all (\<lambda>p. dogStatus p = Some AVOID) (orderTeam g)"
      by (simp add: list_all_iff)
    with assms(2) show False by simp
  qed
  then have "last (orderTeam g) = last (likeOf g)" "last (likeOf g) \<in> set (likeOf g)"
    unfolding eq by (rule last_appendR, rule last_in_set)
  then show ?thesis by simp
qed

lemma all_like:
  assumes "\<not> someStatus HAVE (orderTeam g)" and "\<not> someStatus AVOID (orderTeam g)"
  shows "list_all (\<lambda>p. dogStatus p = Some LIKE) (orderTeam g)"
  unfolding list_all_iff
proof
  fix p assume p: "p \<in> set (orderTeam g)"
  then obtain s where s: "dogStatus p = Some s"
    using orderTeam_classified by blast
  from assms p s show "dogStatus p = Some LIKE"
    by (cases s) (auto simp: someStatus_def list_ex_iff)
qed

lemma category_ordered:
  assumes "orderTeam g \<noteq> []"
  shows "\<exists>c. category (orderTeam g) = Some c"
proof -
  let ?t = "orderTeam g"
  show ?thesis
  proof (cases "someStatus HAVE ?t")
    case True
    note hv = True
    from last_with_have [OF True] have l:
      "dogStatus (last ?t) = Some HAVE \<or> dogStatus (last ?t) = Some LIKE" .
    have nl: "\<not> list_all (\<lambda>p. dogStatus p = Some LIKE) ?t"
      "\<not> list_all (\<lambda>p. dogStatus p = Some AVOID) ?t"
      using True by (fastforce simp: someStatus_def list_all_iff list_ex_iff)+
    show ?thesis
    proof (cases "someStatus AVOID ?t")
      case True
      with hv l assms show ?thesis by (auto simp: category_def)
    next
      case False
      show ?thesis
      proof (cases "list_all (\<lambda>p. dogStatus p = Some HAVE) ?t")
        case True
        with hv False assms nl show ?thesis by (simp add: category_def)
      next
        case nh: False
        have "\<not> list_all (\<lambda>p. dogStatus p = dogStatus (hd ?t)) ?t"
        proof
          assume a: "list_all (\<lambda>p. dogStatus p = dogStatus (hd ?t)) ?t"
          obtain p where "p \<in> set ?t" "dogStatus p = Some HAVE"
            using hv by (auto simp: someStatus_def list_ex_iff)
          with a have "dogStatus (hd ?t) = Some HAVE" by (auto simp: list_all_iff)
          with a nh show False by simp
        qed
        with hv False assms nl nh l show ?thesis by (auto simp: category_def)
      qed
    qed
  next
    case False
    note nohave = False
    have nh: "\<not> list_all (\<lambda>p. dogStatus p = Some HAVE) ?t"
      using False assms by (cases ?t) (auto simp: someStatus_def)
    show ?thesis
    proof (cases "list_all (\<lambda>p. dogStatus p = Some AVOID) ?t")
      case True
      with nohave assms show ?thesis by (simp add: category_def)
    next
      case na: False
      show ?thesis
      proof (cases "someStatus AVOID ?t")
        case False
        from all_like [OF nohave False] nohave False assms na show ?thesis
          by (simp add: category_def)
      next
        case True
        have l: "dogStatus (last ?t) = Some LIKE"
          by (rule last_avoid_like [OF nohave na])
        have nl: "\<not> list_all (\<lambda>p. dogStatus p = Some LIKE) ?t"
          using True by (fastforce simp: someStatus_def list_all_iff list_ex_iff)
        have "\<not> list_all (\<lambda>p. dogStatus p = dogStatus (hd ?t)) ?t"
        proof
          assume a: "list_all (\<lambda>p. dogStatus p = dogStatus (hd ?t)) ?t"
          obtain p where "p \<in> set ?t" "dogStatus p = Some AVOID"
            using True by (auto simp: someStatus_def list_ex_iff)
          with a have "dogStatus (hd ?t) = Some AVOID" by (auto simp: list_all_iff)
          with a na show False by simp
        qed
        with nohave True assms na nl nh l show ?thesis by (simp add: category_def)
      qed
    qed
  qed
qed

text \<open>
  C7. Every team that, after the intra-team ordering, has a member with one of the three
  statuses lands in exactly one of the eight buckets the source fills: the
  classification returns, and for each such team there is exactly one category whose
  bucket holds it.
\<close>

theorem every_ordered_team_in_one_bucket:
  assumes "\<forall>e \<in> set groups. \<exists>p \<in> set (orderTeam (snd e)).
             dogStatus p = Some AVOID \<or> dogStatus p = Some LIKE \<or> dogStatus p = Some HAVE"
  shows "\<exists>b. categorize (map (\<lambda>(k, team). (k, orderTeam team)) groups) = Inr b \<and>
             (\<forall>e \<in> set (map (\<lambda>(k, team). (k, orderTeam team)) groups).
                \<exists>!c. e \<in> set (bucket c b))"
proof -
  let ?T = "map (\<lambda>(k, team). (k, orderTeam team)) groups"
  have ne: "\<forall>e \<in> set ?T. snd e \<noteq> []"
    using assms by fastforce
  obtain b where b: "categorize ?T = Inr b"
    and bk: "\<forall>c. bucket c b = filter (\<lambda>e. category (snd e) = Some c) ?T"
    using categorize_category [OF ne] by blast
  have "\<exists>!c. e \<in> set (bucket c b)" if e: "e \<in> set ?T" for e
  proof -
    obtain g where "snd e = orderTeam g" using e by auto
    moreover have "snd e \<noteq> []" using ne e by blast
    ultimately obtain c where c: "category (snd e) = Some c"
      using category_ordered by metis
    have "e \<in> set (bucket c' b) \<longleftrightarrow> c' = c" for c'
      using e c by (auto simp: bk)
    then show ?thesis by (intro ex1I [of _ c]) simp_all
  qed
  with b show ?thesis by blast
qed

theorem every_ordered_team_in_one_bucket_witness:
  "\<exists>b. categorize [(''t'', orderTeam scenario1), (''u'', orderTeam twoHaveFiveLike)] = Inr b \<and>
       (\<exists>!c. (''t'', orderTeam scenario1) \<in> set (bucket c b)) \<and>
       (\<exists>!c. (''u'', orderTeam twoHaveFiveLike) \<in> set (bucket c b))"
proof -
  have "\<forall>e \<in> set [(''t'', scenario1), (''u'', twoHaveFiveLike)]. \<exists>p \<in> set (orderTeam (snd e)).
             dogStatus p = Some AVOID \<or> dogStatus p = Some LIKE \<or> dogStatus p = Some HAVE"
    by (force simp: set_orderTeam scenario1_def twoHaveFiveLike_def teamMember_def)
  from every_ordered_team_in_one_bucket [OF this] show ?thesis by simp
qed

section \<open>The final sequence\<close>

lemma teams_eq_spec:
  "map (\<lambda>(k, team). (k, orderTeam team)) (teamGroups people) = teams_spec people"
  by (simp add: teamGroups_eq_spec teamGroups_spec_def teams_spec_def comp_def)

lemma orderTeam_empty_iff: "orderTeam g = [] \<longleftrightarrow> (\<forall>p \<in> set g. dogStatus p = None)"
proof -
  have "orderTeam g = [] \<longleftrightarrow> set (orderTeam g) = {}" by simp
  also have "\<dots> \<longleftrightarrow> (\<forall>p \<in> set g. dogStatus p = None)"
    unfolding set_orderTeam by auto
  finally show ?thesis .
qed

lemma teams_nonempty_iff:
  "(\<forall>e \<in> set (teams_spec people). snd e \<noteq> []) = everyTeamClassified people"
proof -
  have "(\<forall>e \<in> set (teams_spec people). snd e \<noteq> []) =
        (\<forall>q \<in> set people. orderTeam (filter (\<lambda>p. teamKey p = teamKey q) people) \<noteq> [])"
    unfolding teams_spec_def by (simp add: set_firstSeen)
  also have "\<dots> = (\<forall>q \<in> set people. \<exists>r \<in> set people. teamKey r = teamKey q \<and> dogStatus r \<noteq> None)"
    unfolding orderTeam_empty_iff by (intro ball_cong refl) fastforce
  finally show ?thesis
    unfolding everyTeamClassified_def list_all_iff list_ex_iff .
qed

lemma emitted_eq_spec:
  assumes "everyTeamClassified people"
  shows "\<exists>b. categorize (teams_spec people) = Inr b \<and> emitted b = emitted_spec people"
proof -
  have ne: "\<forall>e \<in> set (teams_spec people). snd e \<noteq> []"
    using assms by (simp add: teams_nonempty_iff)
  obtain b where b: "categorize (teams_spec people) = Inr b"
    and bk: "\<forall>c. bucket c b = teamsOf c (teams_spec people)"
    unfolding teamsOf_def using categorize_category [OF ne] by blast
  have "emitted b = emitted_spec people"
    using bk [rule_format, of OnlyAvoid] bk [rule_format, of AvoidEndLike]
      bk [rule_format, of BothEndLike] bk [rule_format, of BothEndHave]
      bk [rule_format, of OnlyLike] bk [rule_format, of HaveEndLike]
      bk [rule_format, of HaveEndHave] bk [rule_format, of OnlyHave]
    by (simp add: emitted_def emitted_spec_def Let_def middleBlock_rounds)
  with b show ?thesis by blast
qed

lemma calculate_returns:
  assumes "everyTeamClassified people"
  shows "calculateDeskLayout people = Inr (layout_spec people)"
proof (cases "people = []")
  case True
  then show ?thesis
    by (simp add: calculateDeskLayout_def layout_spec_def emitted_spec_def teams_spec_def
        firstSeen_def teamsOf_def middleBlock_spec_def)
next
  case False
  obtain b where "categorize (teams_spec people) = Inr b" "emitted b = emitted_spec people"
    using emitted_eq_spec [OF assms] by blast
  with False show ?thesis
    by (simp add: calculateDeskLayout_def teams_eq_spec bindE_def layout_spec_def)
qed

lemma calculate_raises:
  assumes "\<not> everyTeamClassified people"
  shows "calculateDeskLayout people = Inl TypeError"
proof -
  have ne: "people \<noteq> []" using assms by (auto simp: everyTeamClassified_def)
  obtain e where "e \<in> set (teams_spec people)" "snd e = []"
    using assms teams_nonempty_iff [of people] by blast
  then have "categorize (teams_spec people) = Inl TypeError"
    by (rule categorize_empty)
  with ne show ?thesis
    by (simp add: calculateDeskLayout_def teams_eq_spec bindE_def)
qed

lemma partition_categories:
  assumes "\<forall>e \<in> set ts. category (snd e) \<noteq> None"
  shows "mset (teamsOf OnlyAvoid ts) + mset (teamsOf AvoidEndLike ts) +
         mset (teamsOf BothEndLike ts) + mset (teamsOf BothEndHave ts) +
         mset (teamsOf OnlyLike ts) + mset (teamsOf HaveEndLike ts) +
         mset (teamsOf HaveEndHave ts) + mset (teamsOf OnlyHave ts) = mset ts"
  using assms
proof (induction ts)
  case Nil
  show ?case by (simp add: teamsOf_def)
next
  case (Cons e ts)
  then obtain c where c: "category (snd e) = Some c" by auto
  have ih: "mset (teamsOf OnlyAvoid ts) + mset (teamsOf AvoidEndLike ts) +
         mset (teamsOf BothEndLike ts) + mset (teamsOf BothEndHave ts) +
         mset (teamsOf OnlyLike ts) + mset (teamsOf HaveEndLike ts) +
         mset (teamsOf HaveEndHave ts) + mset (teamsOf OnlyHave ts) = mset ts"
    using Cons by simp
  have step: "teamsOf c' (e # ts) = (if c' = c then e # teamsOf c' ts else teamsOf c' ts)" for c'
    using c by (auto simp: teamsOf_def)
  show ?case
    unfolding step using ih by (cases c) simp_all
qed

lemma mset_emitted:
  assumes "everyTeamClassified people"
  shows "mset (emitted_spec people) = mset (teams_spec people)"
proof -
  have ne: "\<forall>e \<in> set (teams_spec people). snd e \<noteq> []"
    using assms by (simp add: teams_nonempty_iff)
  have "\<forall>e \<in> set (teams_spec people). category (snd e) \<noteq> None"
  proof
    fix e assume e: "e \<in> set (teams_spec people)"
    then obtain g where "snd e = orderTeam g" by (auto simp: teams_spec_def)
    moreover have "snd e \<noteq> []" using ne e by blast
    ultimately show "category (snd e) \<noteq> None"
      using category_ordered by (metis option.distinct(1))
  qed
  from partition_categories [OF this] show ?thesis
    by (simp add: emitted_spec_def Let_def middleBlock_rounds [symmetric] mset_middleBlock ac_simps)
qed

lemma mset_concat_snd_sum:
  "mset (concat (map snd zs)) = sum_mset (image_mset (\<lambda>e. mset (snd e)) (mset zs))"
  by (induction zs) simp_all

lemma mset_concat_snd:
  "mset xs = mset ys \<Longrightarrow> mset (concat (map snd xs)) = mset (concat (map snd ys))"
  by (simp add: mset_concat_snd_sum)

lemma mset_concat_cong:
  "\<forall>k \<in> set ks. mset (g k) = mset (g' k) \<Longrightarrow>
     mset (concat (map g ks)) = mset (concat (map g' ks))"
  by (induction ks) simp_all

lemma mset_groups:
  "distinct ks \<Longrightarrow> f ` set xs \<subseteq> set ks \<Longrightarrow>
     mset (concat (map (\<lambda>k. filter (\<lambda>p. f p = k) xs) ks)) = mset xs"
proof (induction ks arbitrary: xs)
  case Nil
  then show ?case by simp
next
  case (Cons k ks)
  let ?rest = "filter (\<lambda>p. f p \<noteq> k) xs"
  have "\<forall>k' \<in> set ks. mset (filter (\<lambda>p. f p = k') xs) = mset (filter (\<lambda>p. f p = k') ?rest)"
  proof
    fix k' assume "k' \<in> set ks"
    then have "k' \<noteq> k" using Cons.prems(1) by auto
    then have "filter (\<lambda>p. f p = k') ?rest = filter (\<lambda>p. f p = k') xs"
      by (auto intro: filter_cong)
    then show "mset (filter (\<lambda>p. f p = k') xs) = mset (filter (\<lambda>p. f p = k') ?rest)"
      by simp
  qed
  then have "mset (concat (map (\<lambda>k. filter (\<lambda>p. f p = k) xs) ks)) =
             mset (concat (map (\<lambda>k. filter (\<lambda>p. f p = k) ?rest) ks))"
    by (rule mset_concat_cong)
  also have "\<dots> = mset ?rest"
    using Cons.prems by (intro Cons.IH) auto
  finally have "mset (concat (map (\<lambda>k. filter (\<lambda>p. f p = k) xs) (k # ks))) =
      mset (filter (\<lambda>p. f p = k) xs) + mset ?rest"
    by simp
  also have "\<dots> = mset xs"
    by (induction xs) simp_all
  finally show ?case .
qed

lemma mset_teams:
  "mset (concat (map snd (teams_spec people))) = mset (filter (\<lambda>p. dogStatus p \<noteq> None) people)"
proof -
  let ?ks = "firstSeen (map teamKey people)"
  let ?cl = "filter (\<lambda>p. dogStatus p \<noteq> None) people"
  have "concat (map snd (teams_spec people)) =
        concat (map (\<lambda>k. orderTeam (filter (\<lambda>p. teamKey p = k) people)) ?ks)"
    by (simp add: teams_spec_def comp_def)
  moreover have "mset (concat (map (\<lambda>k. orderTeam (filter (\<lambda>p. teamKey p = k) people)) ?ks)) =
                 mset (concat (map (\<lambda>k. filter (\<lambda>p. teamKey p = k) ?cl) ?ks))"
  proof (rule mset_concat_cong, rule ballI)
    fix k
    have "mset (orderTeam (filter (\<lambda>p. teamKey p = k) people)) =
          mset (filter (\<lambda>p. dogStatus p \<noteq> None) (filter (\<lambda>p. teamKey p = k) people))"
      by (simp only: mset_orderTeam mset_classified)
    also have "\<dots> = mset (filter (\<lambda>p. teamKey p = k) ?cl)"
      by (simp add: conj_commute)
    finally show "mset (orderTeam (filter (\<lambda>p. teamKey p = k) people)) =
                  mset (filter (\<lambda>p. teamKey p = k) ?cl)" .
  qed
  moreover have "mset (concat (map (\<lambda>k. filter (\<lambda>p. teamKey p = k) ?cl) ?ks)) = mset ?cl"
    by (rule mset_groups) (auto simp: distinct_firstSeen set_firstSeen)
  ultimately show ?thesis by simp
qed

lemma mset_layout:
  assumes "everyTeamClassified people"
  shows "mset (layout_spec people) = mset (filter (\<lambda>p. dogStatus p \<noteq> None) people)"
  unfolding layout_spec_def
  using mset_concat_snd [OF mset_emitted [OF assms]] mset_teams [of people] by simp

text \<open>
  C1. When every person of the input has one of the three statuses, the layout returns
  and its output is a permutation of the input: the same multiset of people, and so the
  same length.
\<close>

theorem layout_is_permutation:
  assumes "\<forall>p \<in> set people.
             dogStatus p = Some AVOID \<or> dogStatus p = Some LIKE \<or> dogStatus p = Some HAVE"
  shows "\<exists>out. calculateDeskLayout people = Inr out \<and> mset out = mset people \<and>
               length out = length people"
proof -
  have cl: "\<forall>p \<in> set people. dogStatus p \<noteq> None" using assms by auto
  then have all: "everyTeamClassified people"
    unfolding everyTeamClassified_def list_all_iff list_ex_iff by blast
  have "filter (\<lambda>p. dogStatus p \<noteq> None) people = people"
    using cl by (intro filter_True) 
  then have m: "mset (layout_spec people) = mset people"
    using mset_layout [OF all] by simp
  then have "length (layout_spec people) = length people"
    by (rule mset_eq_length)
  with m calculate_returns [OF all] show ?thesis by blast
qed

theorem layout_is_permutation_witness:
  "\<exists>out. calculateDeskLayout office = Inr out \<and> mset out = mset office \<and>
         length out = length office"
proof -
  have "\<forall>p \<in> set office.
          dogStatus p = Some AVOID \<or> dogStatus p = Some LIKE \<or> dogStatus p = Some HAVE"
    by (simp add: office_def teamMember_def)
  from layout_is_permutation [OF this] show ?thesis .
qed

text \<open>
  Where every team group of the input has a member with a recognised status, the drop of
  the unclassified people is silent: the layout returns without raising, a person whose
  status is none of the three is absent from the output, and the output holds exactly
  the people with a recognised status.
\<close>

lemma unclassified_excluded:
  assumes "everyTeamClassified people" and "dogStatus p = None"
  shows "\<exists>out. calculateDeskLayout people = Inr out \<and> p \<notin> set out \<and>
               mset out = mset (filter (\<lambda>q. dogStatus q \<noteq> None) people)"
proof -
  have m: "mset (layout_spec people) = mset (filter (\<lambda>q. dogStatus q \<noteq> None) people)"
    by (rule mset_layout [OF assms(1)])
  then have "set (layout_spec people) = set (filter (\<lambda>q. dogStatus q \<noteq> None) people)"
    by (rule mset_eq_setD)
  then have "p \<notin> set (layout_spec people)" using assms(2) by simp
  with m calculate_returns [OF assms(1)] show ?thesis by blast
qed

lemma unclassified_excluded_example:
  "everyTeamClassified (teamMember ''ops'' ''Una'' None # office) \<and>
   dogStatus (teamMember ''ops'' ''Una'' None) = None \<and>
   (\<exists>out. calculateDeskLayout (teamMember ''ops'' ''Una'' None # office) = Inr out \<and>
          teamMember ''ops'' ''Una'' None \<notin> set out)"
proof -
  have 1: "everyTeamClassified (teamMember ''ops'' ''Una'' None # office)"
    by (simp add: everyTeamClassified_def office_def teamMember_def teamKey_def)
  have 2: "dogStatus (teamMember ''ops'' ''Una'' None) = None"
    by (simp add: teamMember_def)
  from unclassified_excluded [OF 1 2] 1 2 show ?thesis by blast
qed

text \<open>
  C9. The specification asks that a person whose status is none of the three, in a team
  group that has a member with a recognised status, is silently excluded: the layout
  returns without raising and the person is absent from the output. The source does so
  only while no other team group is wholly unclassified. Ann is unclassified and her
  team has Ben (AVOID), but the input also has a team whose only member is unclassified;
  that group is emptied by the ordering stage, \<open>team[0].dogStatus\<close> is read on it,
  and the layout raises instead of returning a result without Ann.
\<close>

theorem stray_group_raises:
  "dogStatus (teamMember ''dev'' ''Ann'' None) = None \<and>
   teamMember ''dev'' ''Ann'' None \<in> set strayGroup \<and>
   list_ex (\<lambda>r. teamKey r = teamKey (teamMember ''dev'' ''Ann'' None) \<and> dogStatus r = Some AVOID)
     strayGroup \<and>
   calculateDeskLayout strayGroup = Inl TypeError"
  by (simp add: strayGroup_def teamMember_def teamKey_def calculateDeskLayout_def teamGroups_def
      orderTeam_def categorize_def bindE_def withAvoidAndHave_def someStatus_def endsWith_def
      lastStatus_def samePreferences_def differentPreferences_def firstStatus_def startsWith_def
      mixedEnding_def)

text \<open>
  C2. The specification asks that an input with a team group whose members are all
  unclassified still yields a result. The source empties such a group in the ordering
  stage and then reads \<open>team[0].dogStatus\<close> of the empty group in the
  \<open>teamsSamePreferences\<close> filter, which raises.
\<close>

theorem unclassified_team_raises:
  "calculateDeskLayout [teamMember ''dev'' ''Ann'' None, teamMember ''dev'' ''Abe'' None] =
     Inl TypeError"
  by (simp add: teamMember_def teamKey_def calculateDeskLayout_def teamGroups_def
      orderTeam_def categorize_def bindE_def withAvoidAndHave_def someStatus_def endsWith_def
      lastStatus_def samePreferences_def differentPreferences_def firstStatus_def startsWith_def
      mixedEnding_def)

section \<open>Team blocks\<close>

lemma contiguous_blocks:
  assumes "distinct (map fst es)" and "\<forall>e \<in> set es. \<forall>p \<in> set (snd e). f p = fst e"
  shows "\<exists>pre block post. concat (map snd es) = pre @ block @ post \<and>
           (\<forall>p \<in> set block. f p = k) \<and> (\<forall>p \<in> set pre \<union> set post. f p \<noteq> k)"
proof (cases "k \<in> fst ` set es")
  case False
  have "\<forall>p \<in> set (concat (map snd es)). f p \<noteq> k"
    using False assms(2) by fastforce
  then show ?thesis
    by (intro exI [of _ "concat (map snd es)"] exI [of _ "[]"]) simp
next
  case True
  then obtain e where e: "e \<in> set es" "fst e = k" by auto
  then obtain es1 es2 where sp: "es = es1 @ e # es2"
    by (meson split_list)
  have d: "k \<notin> fst ` set es1" "k \<notin> fst ` set es2"
    using assms(1) e(2) unfolding sp by auto
  have 1: "\<forall>p \<in> set (concat (map snd es1)). f p \<noteq> k"
    using d(1) assms(2) unfolding sp by fastforce
  have 2: "\<forall>p \<in> set (concat (map snd es2)). f p \<noteq> k"
    using d(2) assms(2) unfolding sp by fastforce
  have 3: "\<forall>p \<in> set (snd e). f p = k"
    using assms(2) e by auto
  have "concat (map snd es) = concat (map snd es1) @ snd e @ concat (map snd es2)"
    unfolding sp by simp
  with 1 2 3 show ?thesis by blast
qed

lemma returns_iff: "(\<exists>out. calculateDeskLayout people = Inr out) = everyTeamClassified people"
proof (cases "everyTeamClassified people")
  case True
  then show ?thesis by (simp add: calculate_returns)
next
  case False
  then show ?thesis by (simp add: calculate_raises)
qed

lemma teams_spec_keys: "map fst (teams_spec people) = firstSeen (map teamKey people)"
  by (simp add: teams_spec_def comp_def)

lemma teams_spec_members:
  "e \<in> set (teams_spec people) \<Longrightarrow> \<forall>p \<in> set (snd e). teamKey p = fst e"
  by (auto simp: teams_spec_def set_orderTeam)

text \<open>
  C6. In every output of the layout, the members of a team key (\<open>team.id\<close>, or the
  shared key \<open>none\<close> of the people without a team) form one contiguous block: the
  output splits into a part without members of that key, the block of its members, and
  another part without members of that key.
\<close>

theorem teams_are_contiguous:
  assumes "calculateDeskLayout people = Inr out"
  shows "\<exists>pre block post. out = pre @ block @ post \<and>
           (\<forall>p \<in> set block. teamKey p = k) \<and> (\<forall>p \<in> set pre \<union> set post. teamKey p \<noteq> k)"
proof -
  have all: "everyTeamClassified people"
    using assms returns_iff by blast
  then have out: "out = concat (map snd (emitted_spec people))"
    using assms calculate_returns [OF all] by (simp add: layout_spec_def)
  have m: "mset (emitted_spec people) = mset (teams_spec people)"
    by (rule mset_emitted [OF all])
  then have "mset (map fst (emitted_spec people)) = mset (map fst (teams_spec people))"
    by simp
  then have "distinct (map fst (emitted_spec people)) = distinct (map fst (teams_spec people))"
    by (rule mset_eq_imp_distinct_iff)
  then have d: "distinct (map fst (emitted_spec people))"
    by (simp add: teams_spec_keys distinct_firstSeen)
  have "set (emitted_spec people) = set (teams_spec people)"
    using m by (rule mset_eq_setD)
  then have k: "\<forall>e \<in> set (emitted_spec people). \<forall>p \<in> set (snd e). teamKey p = fst e"
    using teams_spec_members by blast
  show ?thesis
    unfolding out by (rule contiguous_blocks [OF d k])
qed

lemma office_layout:
  "calculateDeskLayout office =
     Inr [teamMember ''hr'' ''Hana'' (Some AVOID),
          teamMember ''dev'' ''Charlie'' (Some AVOID), teamMember ''dev'' ''Alice'' (Some LIKE),
          teamMember ''dev'' ''David'' (Some HAVE), teamMember ''dev'' ''Bob'' (Some LIKE),
          teamMember ''dev'' ''Eve'' (Some HAVE),
          teamMember ''ops'' ''Olga'' (Some LIKE), teamMember ''ops'' ''Omar'' (Some HAVE)]"
  by (simp add: office_def teamMember_def teamKey_def calculateDeskLayout_def teamGroups_def
      orderTeam_def haveLoop.simps slice_def categorize_def bindE_def withAvoidAndHave_def
      someStatus_def endsWith_def lastStatus_def samePreferences_def differentPreferences_def
      firstStatus_def startsWith_def mixedEnding_def emitted_def middleBlock_def
      middleLoop.simps middleCond_def middleStep_def pushBuffer_def pushBothEndHave_def)

theorem teams_are_contiguous_witness:
  "calculateDeskLayout office =
     Inr [teamMember ''hr'' ''Hana'' (Some AVOID),
          teamMember ''dev'' ''Charlie'' (Some AVOID), teamMember ''dev'' ''Alice'' (Some LIKE),
          teamMember ''dev'' ''David'' (Some HAVE), teamMember ''dev'' ''Bob'' (Some LIKE),
          teamMember ''dev'' ''Eve'' (Some HAVE),
          teamMember ''ops'' ''Olga'' (Some LIKE), teamMember ''ops'' ''Omar'' (Some HAVE)] \<and>
   (\<exists>pre block post.
      [teamMember ''hr'' ''Hana'' (Some AVOID),
       teamMember ''dev'' ''Charlie'' (Some AVOID), teamMember ''dev'' ''Alice'' (Some LIKE),
       teamMember ''dev'' ''David'' (Some HAVE), teamMember ''dev'' ''Bob'' (Some LIKE),
       teamMember ''dev'' ''Eve'' (Some HAVE),
       teamMember ''ops'' ''Olga'' (Some LIKE), teamMember ''ops'' ''Omar'' (Some HAVE)] =
        pre @ block @ post \<and>
      (\<forall>p \<in> set block. teamKey p = ''dev'') \<and>
      (\<forall>p \<in> set pre \<union> set post. teamKey p \<noteq> ''dev''))"
  using office_layout teams_are_contiguous [OF office_layout, of "''dev''"] by blast

section \<open>The order of the buckets\<close>

lemma filter_false_status:
  "\<forall>p \<in> set g. dogStatus p = Some s \<Longrightarrow> s' \<noteq> s \<Longrightarrow> filter (\<lambda>p. dogStatus p = Some s') g = []"
  by (induction g) auto

lemma filter_true_status:
  "\<forall>p \<in> set g. dogStatus p = Some s \<Longrightarrow> filter (\<lambda>p. dogStatus p = Some s) g = g"
  by (induction g) auto

lemma orderTeam_all_avoid:
  assumes "\<forall>p \<in> set g. dogStatus p = Some AVOID"
  shows "orderTeam g = g"
proof -
  have "haveOf g = []" "likeOf g = []" "avoidOf g = g"
    using assms by (simp_all add: filter_false_status filter_true_status)
  then show ?thesis by (simp add: orderTeam_few)
qed

lemma orderTeam_all_have:
  assumes "\<forall>p \<in> set g. dogStatus p = Some HAVE"
  shows "orderTeam g = g"
proof -
  have f: "haveOf g = g" "likeOf g = []" "avoidOf g = []"
    using assms by (simp_all add: filter_false_status filter_true_status)
  show ?thesis
  proof (cases "1 < length g")
    case False
    then show ?thesis using f by (simp add: orderTeam_few)
  next
    case True
    have i: "initialLikes g = 0" by (simp add: initialLikes_def f)
    have "fst (haveLoop g [] 0 0 0 ([], 0)) = [] @ drop 0 g"
      by (rule haveLoop_no_likes)
    then have "fst (alternated g) = g"
      by (simp add: alternated_def f i slice_def)
    then show ?thesis using True f by (simp add: orderTeam_many)
  qed
qed

lemma category_all_avoid:
  assumes "g \<noteq> []" and "\<forall>p \<in> set g. dogStatus p = Some AVOID"
  shows "category g = Some OnlyAvoid"
proof -
  have "\<not> someStatus HAVE g"
    using assms(2) by (auto simp: someStatus_def list_ex_iff)
  moreover have "list_all (\<lambda>p. dogStatus p = Some AVOID) g"
    using assms(2) by (simp add: list_all_iff)
  ultimately show ?thesis using assms(1) by (simp add: category_def)
qed

lemma category_all_have:
  assumes "g \<noteq> []" and "\<forall>p \<in> set g. dogStatus p = Some HAVE"
  shows "category g = Some OnlyHave"
proof -
  have "\<not> someStatus AVOID g"
    using assms(2) by (auto simp: someStatus_def list_ex_iff)
  moreover have "list_all (\<lambda>p. dogStatus p = Some HAVE) g"
    using assms(2) by (simp add: list_all_iff)
  moreover have "\<not> list_all (\<lambda>p. dogStatus p = Some AVOID) g"
    "\<not> list_all (\<lambda>p. dogStatus p = Some LIKE) g"
    using assms by (cases g; simp)+
  ultimately show ?thesis using assms(1) by (simp add: category_def)
qed

lemma two_keys:
  assumes "distinct ks" and "set ks = {a, h}" and "a \<noteq> h"
  shows "ks = [a, h] \<or> ks = [h, a]"
proof -
  have "length ks = card {a, h}"
    using assms(1,2) distinct_card by fastforce
  then have "length ks = 2" using assms(3) by simp
  then obtain x y where "ks = [x, y]"
    by (auto simp: length_Suc_conv numeral_2_eq_2)
  with assms show ?thesis by (auto simp: doubleton_eq_iff)
qed

lemma avoid_team_then_have_team:
  assumes keys: "teamKey ` set people = {a, h}" and ne: "a \<noteq> h"
    and st: "\<forall>p \<in> set people. (teamKey p = a \<longrightarrow> dogStatus p = Some AVOID) \<and>
                               (teamKey p = h \<longrightarrow> dogStatus p = Some HAVE)"
  shows "calculateDeskLayout people =
           Inr (filter (\<lambda>p. teamKey p = a) people @ filter (\<lambda>p. teamKey p = h) people)"
proof -
  let ?ga = "filter (\<lambda>p. teamKey p = a) people" and ?gh = "filter (\<lambda>p. teamKey p = h) people"
  have a: "\<forall>p \<in> set ?ga. dogStatus p = Some AVOID" and h: "\<forall>p \<in> set ?gh. dogStatus p = Some HAVE"
    using st by auto
  have "a \<in> teamKey ` set people" "h \<in> teamKey ` set people"
    using keys by simp_all
  then have nea: "?ga \<noteq> []" and neh: "?gh \<noteq> []"
    by (auto simp: filter_empty_conv)
  have ca: "category ?ga = Some OnlyAvoid" and ch: "category ?gh = Some OnlyHave"
    using category_all_avoid [OF nea a] category_all_have [OF neh h] by simp_all
  have oa: "orderTeam ?ga = ?ga" and oh: "orderTeam ?gh = ?gh"
    using orderTeam_all_avoid [OF a] orderTeam_all_have [OF h] by simp_all
  have "set (firstSeen (map teamKey people)) = {a, h}"
    using keys by (simp add: set_firstSeen)
  then have "firstSeen (map teamKey people) = [a, h] \<or> firstSeen (map teamKey people) = [h, a]"
    using distinct_firstSeen ne by (intro two_keys) auto
  then have "teams_spec people = [(a, ?ga), (h, ?gh)] \<or> teams_spec people = [(h, ?gh), (a, ?ga)]"
    by (auto simp: teams_spec_def oa oh)
  then have "emitted_spec people = [(a, ?ga), (h, ?gh)]"
    by (auto simp: emitted_spec_def teamsOf_def ca ch middleBlock_spec_def)
  then have l: "layout_spec people = ?ga @ ?gh"
    by (simp add: layout_spec_def)
  have "\<forall>q \<in> set people. dogStatus q \<noteq> None"
    using keys st by fastforce
  then have "everyTeamClassified people"
    unfolding everyTeamClassified_def list_all_iff list_ex_iff by blast
  from calculate_returns [OF this] l show ?thesis by simp
qed

text \<open>
  C4. Whenever the layout returns, its output is the concatenation of the team blocks of
  OnlyAvoid, AvoidEndLike, BothEndLike, the middle block, HaveEndHave and OnlyHave, in
  this order, each bucket holding its teams in first-seen order and each block being the
  intra-team ordering of the team's members (\<open>layout_spec\<close>). So an input made of one
  team whose members all avoid dogs and one team whose members all have dogs yields the
  whole all-AVOID team followed by the whole all-HAVE team, whichever comes first in the
  input.
\<close>

theorem final_sequence:
  "(calculateDeskLayout people = Inr out \<longrightarrow> out = layout_spec people) \<and>
   (teamKey ` set people = {a, h} \<and> a \<noteq> h \<and>
    (\<forall>p \<in> set people. (teamKey p = a \<longrightarrow> dogStatus p = Some AVOID) \<and>
                       (teamKey p = h \<longrightarrow> dogStatus p = Some HAVE)) \<longrightarrow>
    calculateDeskLayout people =
      Inr (filter (\<lambda>p. teamKey p = a) people @ filter (\<lambda>p. teamKey p = h) people))"
proof (intro conjI impI)
  assume r: "calculateDeskLayout people = Inr out"
  then have "everyTeamClassified people" using returns_iff by blast
  from calculate_returns [OF this] r show "out = layout_spec people" by simp
next
  assume "teamKey ` set people = {a, h} \<and> a \<noteq> h \<and>
    (\<forall>p \<in> set people. (teamKey p = a \<longrightarrow> dogStatus p = Some AVOID) \<and>
                       (teamKey p = h \<longrightarrow> dogStatus p = Some HAVE))"
  then show "calculateDeskLayout people =
      Inr (filter (\<lambda>p. teamKey p = a) people @ filter (\<lambda>p. teamKey p = h) people)"
    using avoid_team_then_have_team by blast
qed

theorem final_sequence_witness:
  "calculateDeskLayout twoTeams =
     Inr [teamMember ''quiet'' ''Ada'' (Some AVOID), teamMember ''quiet'' ''Avi'' (Some AVOID),
          teamMember ''pets'' ''Hugo'' (Some HAVE), teamMember ''pets'' ''Hedy'' (Some HAVE)] \<and>
   layout_spec twoTeams =
     [teamMember ''quiet'' ''Ada'' (Some AVOID), teamMember ''quiet'' ''Avi'' (Some AVOID),
      teamMember ''pets'' ''Hugo'' (Some HAVE), teamMember ''pets'' ''Hedy'' (Some HAVE)]"
proof -
  let ?out = "[teamMember ''quiet'' ''Ada'' (Some AVOID), teamMember ''quiet'' ''Avi'' (Some AVOID),
          teamMember ''pets'' ''Hugo'' (Some HAVE), teamMember ''pets'' ''Hedy'' (Some HAVE)]"
  have hyp: "teamKey ` set twoTeams = {''quiet'', ''pets''} \<and> ''quiet'' \<noteq> ''pets'' \<and>
    (\<forall>p \<in> set twoTeams. (teamKey p = ''quiet'' \<longrightarrow> dogStatus p = Some AVOID) \<and>
                       (teamKey p = ''pets'' \<longrightarrow> dogStatus p = Some HAVE))"
    by (auto simp: twoTeams_def teamMember_def teamKey_def)
  have "filter (\<lambda>p. teamKey p = ''quiet'') twoTeams @ filter (\<lambda>p. teamKey p = ''pets'') twoTeams =
        ?out"
    by (simp add: twoTeams_def teamMember_def teamKey_def)
  with hyp final_sequence [of twoTeams ?out "''quiet''" "''pets''"]
  have r: "calculateDeskLayout twoTeams = Inr ?out" by simp
  with final_sequence [of twoTeams ?out "''quiet''" "''pets''"]
  have "?out = layout_spec twoTeams" by blast
  with r show ?thesis by simp
qed

end
